theory Spec2Isabelle
  imports Complex_Main "HOL-Library.Log_Nat"
begin

section \<open>JavaScript numbers\<close>

text \<open>
  Every number of the tracker is an IEEE 754 binary64 value. Box coordinates, identifiers
  and frame counters are integers (the detections carry boxes on the integer scale
  0..1000); they are modelled by \<open>int\<close> and \<open>nat\<close>. Centroids, velocities, the IoU ratio
  and the thresholds are fractions: they are modelled by the rational the binary64 value
  denotes, and every operation that produces one rounds its exact result to the nearest
  value with a 53 bit significand, ties to the even significand (\<open>rnd\<close>).
\<close>

type_synonym number = rat

definition pow2 :: "int \<Rightarrow> rat" where
  "pow2 k = (if 0 \<le> k then 2 ^ nat k else 1 / 2 ^ nat (- k))"

text \<open>\<open>expo q\<close> is the binary exponent of \<open>q \<noteq> 0\<close>: \<open>2 ^ expo q \<le> \<bar>q\<bar> < 2 ^ (expo q + 1)\<close>.\<close>

definition expo :: "rat \<Rightarrow> int" where
  "expo q = (if 1 \<le> \<bar>q\<bar> then bitlen \<lfloor>\<bar>q\<bar>\<rfloor> - 1 else - bitlen (\<lceil>1 / \<bar>q\<bar>\<rceil> - 1))"

definition roundEven :: "rat \<Rightarrow> int" where
  "roundEven x =
     (let f = \<lfloor>x\<rfloor>; r = x - of_int f
      in if r < 1 / 2 then f else if 1 / 2 < r then f + 1 else if even f then f else f + 1)"

definition rnd :: "rat \<Rightarrow> number" where
  "rnd q =
     (if q = 0 then 0
      else let e = expo q - 52 in of_int (roundEven (q / pow2 e)) * pow2 e)"

definition js_add :: "number \<Rightarrow> number \<Rightarrow> number" where
  "js_add a b = rnd (a + b)"

definition js_sub :: "number \<Rightarrow> number \<Rightarrow> number" where
  "js_sub a b = rnd (a - b)"

definition js_mul :: "number \<Rightarrow> number \<Rightarrow> number" where
  "js_mul a b = rnd (a * b)"

text \<open>The quotient by a divisor that the call site knows to differ from zero (a literal,
  or a length tested to be positive).\<close>

definition js_quot :: "number \<Rightarrow> number \<Rightarrow> number" where
  "js_quot a c = rnd (a / c)"

text \<open>
  \<open>calculateIoU\<close> is claimed for every pair of integer boxes, and the differences and
  areas of large boxes leave the range in which binary64 is exact. Its arithmetic is
  therefore modelled with the exponent range of binary64 as well: a \<open>double\<close> is a finite
  value, an infinity or NaN. \<open>round64\<close> rounds an exact result: below \<open>2 ^ -1022\<close> to a
  multiple of \<open>2 ^ -1074\<close> (gradual underflow), elsewhere as \<open>rnd\<close>, and a rounded
  magnitude of \<open>2 ^ 1024\<close> or more is an infinity. The two zeros are one value: they are
  equal under \<open>===\<close>, and no operation of \<open>calculateIoU\<close> tells them apart.
\<close>

datatype double = Finite number | PosInf | NegInf | NaN

definition round64 :: "rat \<Rightarrow> double" where
  "round64 q =
     (let r = (if \<bar>q\<bar> < pow2 (- 1022)
               then of_int (roundEven (q / pow2 (- 1074))) * pow2 (- 1074)
               else rnd q)
      in if pow2 1024 \<le> r then PosInf else if r \<le> - pow2 1024 then NegInf else Finite r)"

definition double_neg :: "double \<Rightarrow> double" where
  "double_neg a =
     (case a of Finite x \<Rightarrow> Finite (- x) | PosInf \<Rightarrow> NegInf | NegInf \<Rightarrow> PosInf | NaN \<Rightarrow> NaN)"

text \<open>\<open>a + b\<close>: the sum of two opposite infinities is NaN.\<close>

fun double_add :: "double \<Rightarrow> double \<Rightarrow> double" where
  "double_add (Finite x) (Finite y) = round64 (x + y)"
| "double_add NaN b = NaN"
| "double_add a NaN = NaN"
| "double_add PosInf NegInf = NaN"
| "double_add NegInf PosInf = NaN"
| "double_add (Finite x) b = b"
| "double_add a b = a"

definition double_sub :: "double \<Rightarrow> double \<Rightarrow> double" where
  "double_sub a b = double_add a (double_neg b)"

text \<open>\<open>a * b\<close>: an infinity times zero is NaN.\<close>

fun double_mul :: "double \<Rightarrow> double \<Rightarrow> double" where
  "double_mul (Finite x) (Finite y) = round64 (x * y)"
| "double_mul NaN b = NaN"
| "double_mul a NaN = NaN"
| "double_mul (Finite x) b = (if x = 0 then NaN else if 0 < x then b else double_neg b)"
| "double_mul a (Finite y) = (if y = 0 then NaN else if 0 < y then a else double_neg a)"
| "double_mul a b = (if a = b then PosInf else NegInf)"

text \<open>\<open>Math.max(0, a)\<close>.\<close>

definition double_max0 :: "double \<Rightarrow> double" where
  "double_max0 a =
     (case a of Finite x \<Rightarrow> Finite (max 0 x) | PosInf \<Rightarrow> PosInf | NegInf \<Rightarrow> Finite 0
      | NaN \<Rightarrow> NaN)"

text \<open>\<open>a / b\<close> for a divisor that the call site has tested to differ from zero: an
  infinity over an infinity is NaN, a finite value over an infinity is zero.\<close>

fun double_quot :: "double \<Rightarrow> double \<Rightarrow> double" where
  "double_quot (Finite x) (Finite y) = round64 (x / y)"
| "double_quot NaN b = NaN"
| "double_quot a NaN = NaN"
| "double_quot (Finite x) b = Finite 0"
| "double_quot a (Finite y) = (if 0 < y then a else double_neg a)"
| "double_quot a b = NaN"

section \<open>Data model (types.ts, trackingService)\<close>

datatype DetectionType = vehicle | pedestrian | infrastructure | other

datatype LaneStatus = Stable | LaneChange | Merging

text \<open>A box is \<open>[ymin, xmin, ymax, xmax]\<close>.\<close>

type_synonym box = "int \<times> int \<times> int \<times> int"

record DetectionItem =
  object :: string
  count :: number
  confidence :: number
  type :: DetectionType
  box_2d :: "box option"
  trackId :: "nat option"
  estimatedSpeed :: "number option"
  laneEvent :: "LaneStatus option"
  isSpeeding :: "bool option"
  isWrongWay :: "bool option"

record TrackedObject =
  id_t :: nat
  class_t :: string
  box :: box
  centroid :: "number \<times> number"
  history :: "(number \<times> number) list"
  missingFrames :: nat
  speed :: number
  dy :: number
  laneStatus :: LaneStatus
  createdAt :: int

record ObjectTracker =
  tracks :: "TrackedObject list"
  nextId :: nat

definition maxMissingFrames :: nat where
  "maxMissingFrames = 50"

definition iouThreshold :: number where
  "iouThreshold = rnd (15 / 100)"

definition SPEED_LIMIT :: number where
  "SPEED_LIMIT = 80"

definition newTracker :: ObjectTracker where
  "newTracker = \<lparr>tracks = [], nextId = 1\<rparr>"

section \<open>Helpers\<close>

definition getCentroid :: "box \<Rightarrow> number \<times> number" where
  "getCentroid b =
     (case b of (b0, b1, b2, b3) \<Rightarrow>
        let y = js_quot (js_quot (of_int (b0 + b2)) 2) 1000;
            x = js_quot (js_quot (of_int (b1 + b3)) 2) 1000
        in (x, y))"

text \<open>\<open>calculateIoU\<close> as binary64 computes it. A coordinate, an integer that is a binary64
  value, is a finite value; the maximum and the minimum of two coordinates are exact.\<close>

definition calculateIoU64 :: "box \<Rightarrow> box \<Rightarrow> double" where
  "calculateIoU64 boxA boxB =
     (case boxA of (a0, a1, a2, a3) \<Rightarrow> case boxB of (b0, b1, b2, b3) \<Rightarrow>
        let coord = (\<lambda>c. Finite (of_int c));
            yA = max a0 b0;
            xA = max a1 b1;
            yB = min a2 b2;
            xB = min a3 b3;
            interArea = double_mul (double_max0 (double_sub (coord xB) (coord xA)))
                          (double_max0 (double_sub (coord yB) (coord yA)));
            boxAArea = double_mul (double_sub (coord a2) (coord a0))
                         (double_sub (coord a3) (coord a1));
            boxBArea = double_mul (double_sub (coord b2) (coord b0))
                         (double_sub (coord b3) (coord b1));
            divisor = double_sub (double_add boxAArea boxBArea) interArea
        in if divisor = Finite 0 then Finite 0 else double_quot interArea divisor)"

text \<open>The result as the tracker uses it: the rational a finite result denotes, and \<open>None\<close>
  for NaN. The result is never an infinity (\<open>calculateIoU64_not_infinite\<close> below: the
  intersection area and the divisor are integers).\<close>

definition calculateIoU :: "box \<Rightarrow> box \<Rightarrow> number option" where
  "calculateIoU boxA boxB =
     (case calculateIoU64 boxA boxB of Finite iou \<Rightarrow> Some iou | _ \<Rightarrow> None)"



text \<open>A box with coordinates of magnitude at most \<open>2 ^ 24\<close>: the differences, the areas
  and the divisor of two such boxes are integers below \<open>2 ^ 53\<close>, which binary64
  computes exactly.\<close>

definition smallBox :: "box \<Rightarrow> bool" where
  "smallBox b =
     (case b of (b0, b1, b2, b3) \<Rightarrow>
        \<bar>b0\<bar> \<le> 2 ^ 24 \<and> \<bar>b1\<bar> \<le> 2 ^ 24 \<and> \<bar>b2\<bar> \<le> 2 ^ 24 \<and> \<bar>b3\<bar> \<le> 2 ^ 24)"

section \<open>ObjectTracker.update\<close>

text \<open>
  \<open>update\<close> mutates the detection objects of the array it is given, through the
  references held by \<open>validDetections\<close>. The model keeps the detections in one list,
  the store, and \<open>validDetections\<close> is the list of the positions in the store that pass
  the filter; the elements of an array decoded from JSON are distinct objects, so a
  position identifies an object. \<open>unmatchedDetections\<close>, a \<open>Set\<close> of indices into
  \<open>validDetections\<close> that is iterated in insertion order, is a list.
\<close>

definition isValid :: "DetectionItem \<Rightarrow> bool" where
  "isValid d = (box_2d d \<noteq> None \<and> type d = vehicle)"

definition filterValid :: "DetectionItem list \<Rightarrow> nat list" where
  "filterValid detections = filter (\<lambda>i. isValid (detections ! i)) [0..<length detections]"

text \<open>One round of the inner \<open>forEach\<close>; \<open>bestMatchIndex = -1\<close> is \<open>None\<close>. A comparison
  with a NaN is false, so a quotient that is not a number changes nothing.\<close>

definition scanDetection ::
  "box \<Rightarrow> DetectionItem list \<Rightarrow> nat list \<Rightarrow> nat list \<Rightarrow> nat option \<times> number \<Rightarrow> nat
     \<Rightarrow> nat option \<times> number" where
  "scanDetection trackBox ds validDetections unmatched acc index =
     (if index \<notin> set unmatched then acc
      else case box_2d (ds ! (validDetections ! index)) of
             None \<Rightarrow> acc
           | Some b \<Rightarrow>
               (case calculateIoU trackBox b of
                  None \<Rightarrow> acc
                | Some iou \<Rightarrow>
                    if iouThreshold < iou \<and> snd acc < iou then (Some index, iou) else acc))"

definition findBestMatch :: "box \<Rightarrow> DetectionItem list \<Rightarrow> nat list \<Rightarrow> nat list \<Rightarrow> nat option" where
  "findBestMatch trackBox ds validDetections unmatched =
     fst (foldl (scanDetection trackBox ds validDetections unmatched) (None, 0)
            [0..<length validDetections])"

text \<open>The lane discipline block, on the history that already holds the new centroid.\<close>

definition laneCheck :: "(number \<times> number) list \<Rightarrow> number \<times> number \<Rightarrow> LaneStatus \<Rightarrow> LaneStatus" where
  "laneCheck hist newCentroid old =
     (if 2 \<le> length hist then
        let historyDepth = min (length hist) 4;
            startX = fst (hist ! (length hist - historyDepth));
            endX = fst newCentroid;
            lateralDisplacement = \<bar>js_sub endX startX\<bar>
        in if rnd (3 / 100) < lateralDisplacement then LaneChange else Stable
      else old)"

text \<open>The update of a matched track; a centroid is \<open>[x, y]\<close>.\<close>

definition matchUpdate :: "TrackedObject \<Rightarrow> box \<Rightarrow> TrackedObject" where
  "matchUpdate track b =
     (let newCentroid = getCentroid b;
          deltaY = js_sub (snd newCentroid) (snd (centroid track));
          absDeltaY = \<bar>deltaY\<bar>;
          pushed = history track @ [newCentroid];
          hist = (if 10 < length pushed then tl pushed else pushed)
      in track\<lparr>missingFrames := 0, box := b, dy := deltaY,
               speed := of_int \<lfloor>js_mul (js_mul absDeltaY 1000) (3 / 2)\<rfloor>,
               history := hist,
               laneStatus := laneCheck hist newCentroid (laneStatus track),
               centroid := newCentroid\<rparr>)"

definition annotate :: "TrackedObject \<Rightarrow> DetectionItem \<Rightarrow> DetectionItem" where
  "annotate track det =
     det\<lparr>trackId := Some (id_t track), estimatedSpeed := Some (speed track),
         laneEvent := Some (laneStatus track)\<rparr>"

text \<open>The body of the loop over the tracks. The scan only returns a detection that has a
  box, so the assertion \<open>match.box_2d!\<close> holds; the model changes nothing otherwise.\<close>

definition matchTrack ::
  "nat list \<Rightarrow> TrackedObject \<Rightarrow> nat list \<times> DetectionItem list
     \<Rightarrow> TrackedObject \<times> nat list \<times> DetectionItem list" where
  "matchTrack validDetections track st =
     (case st of (unmatched, ds) \<Rightarrow>
        case findBestMatch (box track) ds validDetections unmatched of
          None \<Rightarrow> (track, unmatched, ds)
        | Some bestMatchIndex \<Rightarrow>
            (case box_2d (ds ! (validDetections ! bestMatchIndex)) of
               None \<Rightarrow> (track, unmatched, ds)
             | Some b \<Rightarrow>
                 let track' = matchUpdate track b;
                     k = validDetections ! bestMatchIndex
                 in (track', removeAll bestMatchIndex unmatched,
                     ds[k := annotate track' (ds ! k)])))"

fun matchTracks ::
  "nat list \<Rightarrow> TrackedObject list \<Rightarrow> nat list \<times> DetectionItem list
     \<Rightarrow> TrackedObject list \<times> nat list \<times> DetectionItem list" where
  "matchTracks validDetections [] st = ([], st)"
| "matchTracks validDetections (track # rest) st =
     (case matchTrack validDetections track st of (track', st') \<Rightarrow>
        case matchTracks validDetections rest st' of (rest', st'') \<Rightarrow> (track' # rest', st''))"

text \<open>The body of the loop over the unmatched detections: the state is the tracks
  created so far, \<open>nextId\<close> and the store.\<close>

definition createTrack ::
  "nat list \<Rightarrow> int \<Rightarrow> TrackedObject list \<times> nat \<times> DetectionItem list \<Rightarrow> nat
     \<Rightarrow> TrackedObject list \<times> nat \<times> DetectionItem list" where
  "createTrack validDetections timestamp st index =
     (case st of (created, nid, ds) \<Rightarrow>
        let k = validDetections ! index; det = ds ! k
        in case box_2d det of
             None \<Rightarrow> st
           | Some b \<Rightarrow>
               let newCentroid = getCentroid b;
                   newTrack = \<lparr>id_t = nid, class_t = object det, box = b,
                               centroid = newCentroid, history = [newCentroid],
                               missingFrames = 0, speed = 0, dy = 0, laneStatus = Stable,
                               createdAt = timestamp\<rparr>
               in (created @ [newTrack], nid + 1,
                   ds[k := det\<lparr>trackId := Some (id_t newTrack), estimatedSpeed := Some 0,
                                 laneEvent := Some Stable\<rparr>]))"

definition createTracks ::
  "nat list \<Rightarrow> int \<Rightarrow> nat list \<Rightarrow> nat \<Rightarrow> DetectionItem list
     \<Rightarrow> TrackedObject list \<times> nat \<times> DetectionItem list" where
  "createTracks validDetections timestamp unmatched nid ds =
     foldl (createTrack validDetections timestamp) ([], nid, ds) unmatched"

definition dominantFlow :: "TrackedObject list \<Rightarrow> number" where
  "dominantFlow trks =
     (let activeMovingTracks =
            filter (\<lambda>t. missingFrames t = 0 \<and> rnd (1 / 1000) < \<bar>dy t\<bar>) trks
      in if 0 < length activeMovingTracks then
           let totalDy = foldl (\<lambda>sum t. js_add sum (dy t)) 0 activeMovingTracks
           in js_quot totalDy (of_nat (length activeMovingTracks))
         else 0)"

definition wrongWay :: "number \<Rightarrow> number \<Rightarrow> bool" where
  "wrongWay dominantDy trackDy =
     (rnd (5 / 1000) < \<bar>dominantDy\<bar> \<and> rnd (5 / 1000) < \<bar>trackDy\<bar> \<and> sgn dominantDy \<noteq> sgn trackDy)"

text \<open>The body of the loop that applies the flags; \<open>!det.trackId\<close> holds for an absent
  identifier and for 0.\<close>

definition applyFlags :: "TrackedObject list \<Rightarrow> number \<Rightarrow> DetectionItem \<Rightarrow> DetectionItem" where
  "applyFlags trks dominantDy det =
     (case trackId det of
        None \<Rightarrow> det
      | Some i \<Rightarrow>
          if i = 0 then det
          else case find (\<lambda>t. id_t t = i) trks of
                 None \<Rightarrow> det
               | Some track \<Rightarrow>
                   let det1 = (if SPEED_LIMIT < speed track then det\<lparr>isSpeeding := Some True\<rparr>
                               else det)
                   in if wrongWay dominantDy (dy track) then det1\<lparr>isWrongWay := Some True\<rparr>
                      else det1)"

definition flagDetections ::
  "TrackedObject list \<Rightarrow> number \<Rightarrow> nat list \<Rightarrow> DetectionItem list \<Rightarrow> DetectionItem list" where
  "flagDetections trks dominantDy validDetections ds =
     foldl (\<lambda>ds k. ds[k := applyFlags trks dominantDy (ds ! k)]) ds validDetections"

text \<open>The tracks after step 1 (every track ages by one frame).\<close>

definition agedTracks :: "ObjectTracker \<Rightarrow> TrackedObject list" where
  "agedTracks s = map (\<lambda>t. t\<lparr>missingFrames := missingFrames t + 1\<rparr>) (tracks s)"

text \<open>Steps 1 and 2: the tracks after matching, the detections left unmatched, the store.\<close>

definition matchPhase ::
  "ObjectTracker \<Rightarrow> DetectionItem list \<Rightarrow> TrackedObject list \<times> nat list \<times> DetectionItem list" where
  "matchPhase s detections =
     (let validDetections = filterValid detections
      in matchTracks validDetections (agedTracks s)
           ([0..<length validDetections], detections))"

text \<open>Steps 1 to 3: all tracks before the cleanup, the next identifier, the store.\<close>

definition createPhase ::
  "ObjectTracker \<Rightarrow> DetectionItem list \<Rightarrow> int
     \<Rightarrow> TrackedObject list \<times> nat \<times> DetectionItem list" where
  "createPhase s detections timestamp =
     (case matchPhase s detections of (matched, unmatched, ds1) \<Rightarrow>
        case createTracks (filterValid detections) timestamp unmatched (nextId s) ds1 of
          (created, nid, ds2) \<Rightarrow> (matched @ created, nid, ds2))"

definition update ::
  "ObjectTracker \<Rightarrow> DetectionItem list \<Rightarrow> int \<Rightarrow> ObjectTracker \<times> DetectionItem list" where
  "update s detections timestamp =
     (case createPhase s detections timestamp of (trks, nid, ds2) \<Rightarrow>
        let dominantDy = dominantFlow trks;
            ds3 = flagDetections trks dominantDy (filterValid detections) ds2
        in (\<lparr>tracks = filter (\<lambda>t. missingFrames t \<le> maxMissingFrames) trks, nextId = nid\<rparr>,
            ds3))"

definition reset :: "ObjectTracker \<Rightarrow> ObjectTracker" where
  "reset s = s\<lparr>tracks := [], nextId := 1\<rparr>"

definition getActiveTracksCount :: "ObjectTracker \<Rightarrow> nat" where
  "getActiveTracksCount s = length (filter (\<lambda>t. missingFrames t = 0) (tracks s))"

text \<open>A sequence of \<open>update\<close> calls on one tracker, each with its detections and its
  timestamp.\<close>

fun updates :: "ObjectTracker \<Rightarrow> (DetectionItem list \<times> int) list \<Rightarrow> ObjectTracker" where
  "updates s [] = s"
| "updates s (frame # frames) = updates (fst (update s (fst frame) (snd frame))) frames"
section \<open>Notions used in the statements and proofs\<close>

definition nearestEven :: "rat \<Rightarrow> int \<Rightarrow> bool" where
  "nearestEven x m = (\<bar>x - of_int m\<bar> < 1 / 2 \<or> (\<bar>x - of_int m\<bar> = 1 / 2 \<and> even m))"


definition candidateIoU :: "box \<Rightarrow> DetectionItem list \<Rightarrow> nat list \<Rightarrow> nat list \<Rightarrow> nat \<Rightarrow> number option" where
  "candidateIoU trackBox ds validDetections unmatched index =
     (if index \<in> set unmatched
      then case box_2d (ds ! (validDetections ! index)) of
             None \<Rightarrow> None
           | Some b \<Rightarrow> calculateIoU trackBox b
      else None)"

definition changedWithin ::
  "nat set \<Rightarrow> (DetectionItem \<Rightarrow> DetectionItem \<Rightarrow> bool) \<Rightarrow> DetectionItem list \<Rightarrow> DetectionItem list \<Rightarrow> bool" where
  "changedWithin V R ds ds' =
     (length ds' = length ds \<and>
      (\<forall>i<length ds. if i \<in> V then R (ds ! i) (ds' ! i) else ds' ! i = ds ! i))"

definition annotatedBy :: "TrackedObject \<Rightarrow> DetectionItem \<Rightarrow> bool" where
  "annotatedBy t d =
     (trackId d = Some (id_t t) \<and> estimatedSpeed d = Some (speed t) \<and>
      laneEvent d = Some (laneStatus t))"

definition freshTrack :: "TrackedObject \<Rightarrow> bool" where
  "freshTrack t = (missingFrames t = 0 \<and> speed t = 0 \<and> dy t = 0 \<and> laneStatus t = Stable \<and>
     history t = [centroid t])"

definition trackerInv :: "ObjectTracker \<Rightarrow> bool" where
  "trackerInv s =
     (0 < nextId s \<and> sorted_wrt (<) (map id_t (tracks s)) \<and>
      list_all (\<lambda>t. 0 < id_t t \<and> id_t t < nextId s) (tracks s))"

definition binary64Mean :: "number list \<Rightarrow> number" where
  "binary64Mean xs = js_quot (foldl js_add 0 xs) (of_nat (length xs))"

definition assignedIds :: "ObjectTracker \<Rightarrow> DetectionItem list \<Rightarrow> int \<Rightarrow> nat list" where
  "assignedIds s detections timestamp =
     (case matchPhase s detections of (matched, unmatched, ds1) \<Rightarrow>
        map id_t (fst (createTracks (filterValid detections) timestamp unmatched (nextId s) ds1)))"

fun assignedIdsRun :: "ObjectTracker \<Rightarrow> (DetectionItem list \<times> int) list \<Rightarrow> nat list" where
  "assignedIdsRun s [] = []"
| "assignedIdsRun s (frame # frames) =
     assignedIds s (fst frame) (snd frame) @
     assignedIdsRun (fst (update s (fst frame) (snd frame))) frames"

text \<open>The scan of the track at position \<open>p\<close> of the store, at its turn in the matching
  loop, when the tracks before it have taken their detections: the index of the detection
  the track matches, \<open>None\<close> when it matches none.\<close>

definition matchAt :: "ObjectTracker \<Rightarrow> DetectionItem list \<Rightarrow> nat \<Rightarrow> nat option" where
  "matchAt s detections p =
     (let validDetections = filterValid detections
      in case matchTracks validDetections (take p (agedTracks s))
                ([0..<length validDetections], detections) of
           (earlier, unmatched, ds) \<Rightarrow>
             findBestMatch (box (agedTracks s ! p)) ds validDetections unmatched)"

text \<open>The track with identifier \<open>i\<close> matches a detection in this call.\<close>

definition matchedInUpdate :: "ObjectTracker \<Rightarrow> DetectionItem list \<Rightarrow> nat \<Rightarrow> bool" where
  "matchedInUpdate s detections i =
     list_ex (\<lambda>p. id_t (tracks s ! p) = i \<and> matchAt s detections p \<noteq> None)
       [0..<length (tracks s)]"

text \<open>The track with identifier \<open>i\<close> matches no detection in any call of the run.\<close>

fun unmatchedRun :: "ObjectTracker \<Rightarrow> nat \<Rightarrow> (DetectionItem list \<times> int) list \<Rightarrow> bool" where
  "unmatchedRun s i [] = True"
| "unmatchedRun s i (frame # frames) =
     (\<not> matchedInUpdate s (fst frame) i \<and>
      unmatchedRun (fst (update s (fst frame) (snd frame))) i frames)"

definition poolBefore :: "ObjectTracker \<Rightarrow> DetectionItem list \<Rightarrow> nat \<Rightarrow> nat list" where
  "poolBefore s detections p =
     (let validDetections = filterValid detections
      in map (\<lambda>index. validDetections ! index)
           (fst (snd (matchTracks validDetections (take p (agedTracks s))
              ([0..<length validDetections], detections)))))"

definition entryBack :: "'a list \<Rightarrow> nat \<Rightarrow> 'a" where
  "entryBack xs n = xs ! (length xs - 1 - n)"

definition laneCheckBack ::
  "nat \<Rightarrow> (number \<times> number) list \<Rightarrow> number \<times> number \<Rightarrow> LaneStatus \<Rightarrow> LaneStatus" where
  "laneCheckBack n hist newCentroid old =
     (if 2 \<le> length hist then
        if rnd (3 / 100) <
           \<bar>js_sub (fst newCentroid) (fst (entryBack hist (min n (length hist - 1))))\<bar>
        then LaneChange else Stable
      else old)"

definition noMerging :: "ObjectTracker \<Rightarrow> bool" where
  "noMerging s = list_all (\<lambda>t. laneStatus t \<noteq> Merging) (tracks s)"
section \<open>Detections and frames of the examples\<close>

definition car :: "box \<Rightarrow> DetectionItem" where
  "car b =
     \<lparr>object = ''car'', count = 1, confidence = 9 / 10, type = vehicle, box_2d = Some b,
      trackId = None, estimatedSpeed = None, laneEvent = None, isSpeeding = None,
      isWrongWay = None\<rparr>"

definition walker :: DetectionItem where
  "walker =
     \<lparr>object = ''person'', count = 1, confidence = 8 / 10, type = pedestrian,
      box_2d = Some (100, 100, 200, 150), trackId = None, estimatedSpeed = None,
      laneEvent = None, isSpeeding = None, isWrongWay = None\<rparr>"
text \<open>The frames of the examples, and the tracker states and annotated detections
  they lead to. A centroid coordinate is the binary64 value \<open>rnd q\<close> nearest to the
  rational \<open>q\<close>.\<close>

definition speedFrame1 :: "DetectionItem list" where
  "speedFrame1 = [car (400, 400, 500, 500)]"

definition speedFrame2 :: "DetectionItem list" where
  "speedFrame2 = [car (430, 400, 530, 500)]"

definition speedFrame2Fast :: "DetectionItem list" where
  "speedFrame2Fast = [car (460, 400, 560, 500)]"

definition flowFrame1 :: "DetectionItem list" where
  "flowFrame1 =
     [car (400, 0, 500, 100),
      car (400, 150, 500, 250),
      car (400, 300, 500, 400),
      car (400, 450, 500, 550),
      car (400, 600, 500, 700),
      car (400, 750, 500, 850)]"

definition flowFrame2 :: "DetectionItem list" where
  "flowFrame2 =
     [car (420, 0, 520, 100),
      car (420, 150, 520, 250),
      car (420, 300, 520, 400),
      car (420, 450, 520, 550),
      car (420, 600, 520, 700),
      car (380, 750, 480, 850)]"

definition laneFrame1 :: "DetectionItem list" where
  "laneFrame1 = [car (400, 350, 500, 450)]"

definition laneFrame2 :: "DetectionItem list" where
  "laneFrame2 = [car (400, 400, 500, 500)]"

definition greedyFrame1 :: "DetectionItem list" where
  "greedyFrame1 = [car (0, 0, 100, 100), car (0, 50, 100, 150)]"

definition greedyFrame2 :: "DetectionItem list" where
  "greedyFrame2 = [car (0, 50, 100, 150)]"

definition greedyFrame2Far :: "DetectionItem list" where
  "greedyFrame2Far = [car (0, 90, 100, 190)]"

definition speedState1 :: "ObjectTracker" where
  "speedState1 =
     \<lparr>tracks =
     [\<lparr>id_t = 1, class_t = ''car'', box = (400, 400, 500, 500),
        centroid = (rnd (9 / 20), rnd (9 / 20)),
        history = [(rnd (9 / 20), rnd (9 / 20))],
        missingFrames = 0, speed = 0, dy = 0,
        laneStatus = Stable, createdAt = 0\<rparr>],
      nextId = 2\<rparr>"

definition speedOut1 :: "DetectionItem list" where
  "speedOut1 =
     [(car (400, 400, 500, 500))\<lparr>trackId := Some 1, estimatedSpeed := Some 0,
         laneEvent := Some Stable\<rparr>]"

definition speedState2 :: "ObjectTracker" where
  "speedState2 =
     \<lparr>tracks =
     [\<lparr>id_t = 1, class_t = ''car'', box = (430, 400, 530, 500),
        centroid = (rnd (9 / 20), rnd (12 / 25)),
        history = [(rnd (9 / 20), rnd (9 / 20)),
                   (rnd (9 / 20), rnd (12 / 25))],
        missingFrames = 0, speed = 44, dy = js_sub (rnd (12 / 25)) (rnd (9 / 20)),
        laneStatus = Stable, createdAt = 0\<rparr>],
      nextId = 2\<rparr>"

definition speedOut2 :: "DetectionItem list" where
  "speedOut2 =
     [(car (430, 400, 530, 500))\<lparr>trackId := Some 1, estimatedSpeed := Some 44,
         laneEvent := Some Stable\<rparr>]"

definition speedFastState2 :: "ObjectTracker" where
  "speedFastState2 =
     \<lparr>tracks =
     [\<lparr>id_t = 1, class_t = ''car'', box = (460, 400, 560, 500),
        centroid = (rnd (9 / 20), rnd (51 / 100)),
        history = [(rnd (9 / 20), rnd (9 / 20)),
                   (rnd (9 / 20), rnd (51 / 100))],
        missingFrames = 0, speed = 90, dy = js_sub (rnd (51 / 100)) (rnd (9 / 20)),
        laneStatus = Stable, createdAt = 0\<rparr>],
      nextId = 2\<rparr>"

definition speedFastOut2 :: "DetectionItem list" where
  "speedFastOut2 =
     [(car (460, 400, 560, 500))\<lparr>trackId := Some 1, estimatedSpeed := Some 90,
         laneEvent := Some Stable, isSpeeding := Some True\<rparr>]"

definition flowState1 :: "ObjectTracker" where
  "flowState1 =
     \<lparr>tracks =
     [\<lparr>id_t = 1, class_t = ''car'', box = (400, 0, 500, 100),
        centroid = (rnd (1 / 20), rnd (9 / 20)),
        history = [(rnd (1 / 20), rnd (9 / 20))],
        missingFrames = 0, speed = 0, dy = 0,
        laneStatus = Stable, createdAt = 0\<rparr>,
      \<lparr>id_t = 2, class_t = ''car'', box = (400, 150, 500, 250),
        centroid = (rnd (1 / 5), rnd (9 / 20)),
        history = [(rnd (1 / 5), rnd (9 / 20))],
        missingFrames = 0, speed = 0, dy = 0,
        laneStatus = Stable, createdAt = 0\<rparr>,
      \<lparr>id_t = 3, class_t = ''car'', box = (400, 300, 500, 400),
        centroid = (rnd (7 / 20), rnd (9 / 20)),
        history = [(rnd (7 / 20), rnd (9 / 20))],
        missingFrames = 0, speed = 0, dy = 0,
        laneStatus = Stable, createdAt = 0\<rparr>,
      \<lparr>id_t = 4, class_t = ''car'', box = (400, 450, 500, 550),
        centroid = (rnd (1 / 2), rnd (9 / 20)),
        history = [(rnd (1 / 2), rnd (9 / 20))],
        missingFrames = 0, speed = 0, dy = 0,
        laneStatus = Stable, createdAt = 0\<rparr>,
      \<lparr>id_t = 5, class_t = ''car'', box = (400, 600, 500, 700),
        centroid = (rnd (13 / 20), rnd (9 / 20)),
        history = [(rnd (13 / 20), rnd (9 / 20))],
        missingFrames = 0, speed = 0, dy = 0,
        laneStatus = Stable, createdAt = 0\<rparr>,
      \<lparr>id_t = 6, class_t = ''car'', box = (400, 750, 500, 850),
        centroid = (rnd (4 / 5), rnd (9 / 20)),
        history = [(rnd (4 / 5), rnd (9 / 20))],
        missingFrames = 0, speed = 0, dy = 0,
        laneStatus = Stable, createdAt = 0\<rparr>],
      nextId = 7\<rparr>"

definition flowOut1 :: "DetectionItem list" where
  "flowOut1 =
     [(car (400, 0, 500, 100))\<lparr>trackId := Some 1, estimatedSpeed := Some 0,
         laneEvent := Some Stable\<rparr>,
      (car (400, 150, 500, 250))\<lparr>trackId := Some 2, estimatedSpeed := Some 0,
         laneEvent := Some Stable\<rparr>,
      (car (400, 300, 500, 400))\<lparr>trackId := Some 3, estimatedSpeed := Some 0,
         laneEvent := Some Stable\<rparr>,
      (car (400, 450, 500, 550))\<lparr>trackId := Some 4, estimatedSpeed := Some 0,
         laneEvent := Some Stable\<rparr>,
      (car (400, 600, 500, 700))\<lparr>trackId := Some 5, estimatedSpeed := Some 0,
         laneEvent := Some Stable\<rparr>,
      (car (400, 750, 500, 850))\<lparr>trackId := Some 6, estimatedSpeed := Some 0,
         laneEvent := Some Stable\<rparr>]"

definition flowState2 :: "ObjectTracker" where
  "flowState2 =
     \<lparr>tracks =
     [\<lparr>id_t = 1, class_t = ''car'', box = (420, 0, 520, 100),
        centroid = (rnd (1 / 20), rnd (47 / 100)),
        history = [(rnd (1 / 20), rnd (9 / 20)),
                   (rnd (1 / 20), rnd (47 / 100))],
        missingFrames = 0, speed = 29, dy = js_sub (rnd (47 / 100)) (rnd (9 / 20)),
        laneStatus = Stable, createdAt = 0\<rparr>,
      \<lparr>id_t = 2, class_t = ''car'', box = (420, 150, 520, 250),
        centroid = (rnd (1 / 5), rnd (47 / 100)),
        history = [(rnd (1 / 5), rnd (9 / 20)),
                   (rnd (1 / 5), rnd (47 / 100))],
        missingFrames = 0, speed = 29, dy = js_sub (rnd (47 / 100)) (rnd (9 / 20)),
        laneStatus = Stable, createdAt = 0\<rparr>,
      \<lparr>id_t = 3, class_t = ''car'', box = (420, 300, 520, 400),
        centroid = (rnd (7 / 20), rnd (47 / 100)),
        history = [(rnd (7 / 20), rnd (9 / 20)),
                   (rnd (7 / 20), rnd (47 / 100))],
        missingFrames = 0, speed = 29, dy = js_sub (rnd (47 / 100)) (rnd (9 / 20)),
        laneStatus = Stable, createdAt = 0\<rparr>,
      \<lparr>id_t = 4, class_t = ''car'', box = (420, 450, 520, 550),
        centroid = (rnd (1 / 2), rnd (47 / 100)),
        history = [(rnd (1 / 2), rnd (9 / 20)),
                   (rnd (1 / 2), rnd (47 / 100))],
        missingFrames = 0, speed = 29, dy = js_sub (rnd (47 / 100)) (rnd (9 / 20)),
        laneStatus = Stable, createdAt = 0\<rparr>,
      \<lparr>id_t = 5, class_t = ''car'', box = (420, 600, 520, 700),
        centroid = (rnd (13 / 20), rnd (47 / 100)),
        history = [(rnd (13 / 20), rnd (9 / 20)),
                   (rnd (13 / 20), rnd (47 / 100))],
        missingFrames = 0, speed = 29, dy = js_sub (rnd (47 / 100)) (rnd (9 / 20)),
        laneStatus = Stable, createdAt = 0\<rparr>,
      \<lparr>id_t = 6, class_t = ''car'', box = (380, 750, 480, 850),
        centroid = (rnd (4 / 5), rnd (43 / 100)),
        history = [(rnd (4 / 5), rnd (9 / 20)),
                   (rnd (4 / 5), rnd (43 / 100))],
        missingFrames = 0, speed = 30, dy = js_sub (rnd (43 / 100)) (rnd (9 / 20)),
        laneStatus = Stable, createdAt = 0\<rparr>],
      nextId = 7\<rparr>"

definition flowOut2 :: "DetectionItem list" where
  "flowOut2 =
     [(car (420, 0, 520, 100))\<lparr>trackId := Some 1, estimatedSpeed := Some 29,
         laneEvent := Some Stable\<rparr>,
      (car (420, 150, 520, 250))\<lparr>trackId := Some 2, estimatedSpeed := Some 29,
         laneEvent := Some Stable\<rparr>,
      (car (420, 300, 520, 400))\<lparr>trackId := Some 3, estimatedSpeed := Some 29,
         laneEvent := Some Stable\<rparr>,
      (car (420, 450, 520, 550))\<lparr>trackId := Some 4, estimatedSpeed := Some 29,
         laneEvent := Some Stable\<rparr>,
      (car (420, 600, 520, 700))\<lparr>trackId := Some 5, estimatedSpeed := Some 29,
         laneEvent := Some Stable\<rparr>,
      (car (380, 750, 480, 850))\<lparr>trackId := Some 6, estimatedSpeed := Some 30,
         laneEvent := Some Stable, isWrongWay := Some True\<rparr>]"

definition laneState1 :: "ObjectTracker" where
  "laneState1 =
     \<lparr>tracks =
     [\<lparr>id_t = 1, class_t = ''car'', box = (400, 350, 500, 450),
        centroid = (rnd (2 / 5), rnd (9 / 20)),
        history = [(rnd (2 / 5), rnd (9 / 20))],
        missingFrames = 0, speed = 0, dy = 0,
        laneStatus = Stable, createdAt = 0\<rparr>],
      nextId = 2\<rparr>"

definition laneOut1 :: "DetectionItem list" where
  "laneOut1 =
     [(car (400, 350, 500, 450))\<lparr>trackId := Some 1, estimatedSpeed := Some 0,
         laneEvent := Some Stable\<rparr>]"

definition laneState2 :: "ObjectTracker" where
  "laneState2 =
     \<lparr>tracks =
     [\<lparr>id_t = 1, class_t = ''car'', box = (400, 400, 500, 500),
        centroid = (rnd (9 / 20), rnd (9 / 20)),
        history = [(rnd (2 / 5), rnd (9 / 20)),
                   (rnd (9 / 20), rnd (9 / 20))],
        missingFrames = 0, speed = 0, dy = js_sub (rnd (9 / 20)) (rnd (9 / 20)),
        laneStatus = LaneChange, createdAt = 0\<rparr>],
      nextId = 2\<rparr>"

definition laneOut2 :: "DetectionItem list" where
  "laneOut2 =
     [(car (400, 400, 500, 500))\<lparr>trackId := Some 1, estimatedSpeed := Some 0,
         laneEvent := Some LaneChange\<rparr>]"

definition laneState3 :: "ObjectTracker" where
  "laneState3 =
     \<lparr>tracks =
     [\<lparr>id_t = 1, class_t = ''car'', box = (400, 400, 500, 500),
        centroid = (rnd (9 / 20), rnd (9 / 20)),
        history = [(rnd (2 / 5), rnd (9 / 20)),
                   (rnd (9 / 20), rnd (9 / 20)),
                   (rnd (9 / 20), rnd (9 / 20))],
        missingFrames = 0, speed = 0, dy = js_sub (rnd (9 / 20)) (rnd (9 / 20)),
        laneStatus = LaneChange, createdAt = 0\<rparr>],
      nextId = 2\<rparr>"

definition laneOut3 :: "DetectionItem list" where
  "laneOut3 =
     [(car (400, 400, 500, 500))\<lparr>trackId := Some 1, estimatedSpeed := Some 0,
         laneEvent := Some LaneChange\<rparr>]"

definition laneState4 :: "ObjectTracker" where
  "laneState4 =
     \<lparr>tracks =
     [\<lparr>id_t = 1, class_t = ''car'', box = (400, 400, 500, 500),
        centroid = (rnd (9 / 20), rnd (9 / 20)),
        history = [(rnd (2 / 5), rnd (9 / 20)),
                   (rnd (9 / 20), rnd (9 / 20)),
                   (rnd (9 / 20), rnd (9 / 20)),
                   (rnd (9 / 20), rnd (9 / 20))],
        missingFrames = 0, speed = 0, dy = js_sub (rnd (9 / 20)) (rnd (9 / 20)),
        laneStatus = LaneChange, createdAt = 0\<rparr>],
      nextId = 2\<rparr>"

definition laneOut4 :: "DetectionItem list" where
  "laneOut4 =
     [(car (400, 400, 500, 500))\<lparr>trackId := Some 1, estimatedSpeed := Some 0,
         laneEvent := Some LaneChange\<rparr>]"

definition laneState5 :: "ObjectTracker" where
  "laneState5 =
     \<lparr>tracks =
     [\<lparr>id_t = 1, class_t = ''car'', box = (400, 400, 500, 500),
        centroid = (rnd (9 / 20), rnd (9 / 20)),
        history = [(rnd (2 / 5), rnd (9 / 20)),
                   (rnd (9 / 20), rnd (9 / 20)),
                   (rnd (9 / 20), rnd (9 / 20)),
                   (rnd (9 / 20), rnd (9 / 20)),
                   (rnd (9 / 20), rnd (9 / 20))],
        missingFrames = 0, speed = 0, dy = js_sub (rnd (9 / 20)) (rnd (9 / 20)),
        laneStatus = Stable, createdAt = 0\<rparr>],
      nextId = 2\<rparr>"

definition laneOut5 :: "DetectionItem list" where
  "laneOut5 =
     [(car (400, 400, 500, 500))\<lparr>trackId := Some 1, estimatedSpeed := Some 0,
         laneEvent := Some Stable\<rparr>]"

definition greedyState1 :: "ObjectTracker" where
  "greedyState1 =
     \<lparr>tracks =
     [\<lparr>id_t = 1, class_t = ''car'', box = (0, 0, 100, 100),
        centroid = (rnd (1 / 20), rnd (1 / 20)),
        history = [(rnd (1 / 20), rnd (1 / 20))],
        missingFrames = 0, speed = 0, dy = 0,
        laneStatus = Stable, createdAt = 0\<rparr>,
      \<lparr>id_t = 2, class_t = ''car'', box = (0, 50, 100, 150),
        centroid = (rnd (1 / 10), rnd (1 / 20)),
        history = [(rnd (1 / 10), rnd (1 / 20))],
        missingFrames = 0, speed = 0, dy = 0,
        laneStatus = Stable, createdAt = 0\<rparr>],
      nextId = 3\<rparr>"

definition greedyOut1 :: "DetectionItem list" where
  "greedyOut1 =
     [(car (0, 0, 100, 100))\<lparr>trackId := Some 1, estimatedSpeed := Some 0,
         laneEvent := Some Stable\<rparr>,
      (car (0, 50, 100, 150))\<lparr>trackId := Some 2, estimatedSpeed := Some 0,
         laneEvent := Some Stable\<rparr>]"

definition greedyState2 :: "ObjectTracker" where
  "greedyState2 =
     \<lparr>tracks =
     [\<lparr>id_t = 1, class_t = ''car'', box = (0, 50, 100, 150),
        centroid = (rnd (1 / 10), rnd (1 / 20)),
        history = [(rnd (1 / 20), rnd (1 / 20)),
                   (rnd (1 / 10), rnd (1 / 20))],
        missingFrames = 0, speed = 0, dy = js_sub (rnd (1 / 20)) (rnd (1 / 20)),
        laneStatus = LaneChange, createdAt = 0\<rparr>,
      \<lparr>id_t = 2, class_t = ''car'', box = (0, 50, 100, 150),
        centroid = (rnd (1 / 10), rnd (1 / 20)),
        history = [(rnd (1 / 10), rnd (1 / 20))],
        missingFrames = 1, speed = 0, dy = 0,
        laneStatus = Stable, createdAt = 0\<rparr>],
      nextId = 3\<rparr>"

definition greedyOut2 :: "DetectionItem list" where
  "greedyOut2 =
     [(car (0, 50, 100, 150))\<lparr>trackId := Some 1, estimatedSpeed := Some 0,
         laneEvent := Some LaneChange\<rparr>]"

definition greedyFarState2 :: "ObjectTracker" where
  "greedyFarState2 =
     \<lparr>tracks =
     [\<lparr>id_t = 1, class_t = ''car'', box = (0, 0, 100, 100),
        centroid = (rnd (1 / 20), rnd (1 / 20)),
        history = [(rnd (1 / 20), rnd (1 / 20))],
        missingFrames = 1, speed = 0, dy = 0,
        laneStatus = Stable, createdAt = 0\<rparr>,
      \<lparr>id_t = 2, class_t = ''car'', box = (0, 90, 100, 190),
        centroid = (rnd (7 / 50), rnd (1 / 20)),
        history = [(rnd (1 / 10), rnd (1 / 20)),
                   (rnd (7 / 50), rnd (1 / 20))],
        missingFrames = 0, speed = 0, dy = js_sub (rnd (1 / 20)) (rnd (1 / 20)),
        laneStatus = LaneChange, createdAt = 0\<rparr>],
      nextId = 3\<rparr>"

definition greedyFarOut2 :: "DetectionItem list" where
  "greedyFarOut2 =
     [(car (0, 90, 100, 190))\<lparr>trackId := Some 2, estimatedSpeed := Some 0,
         laneEvent := Some LaneChange\<rparr>]"
section \<open>Rounding\<close>

lemma rnd_zero: "rnd 0 = 0"
  by (simp add: rnd_def)

lemma pow2_pos: "0 < pow2 k"
  by (simp add: pow2_def)

lemma roundEven_nonneg: "0 \<le> x \<Longrightarrow> 0 \<le> roundEven x"
  by (simp add: roundEven_def Let_def)

lemma roundEven_le: "x \<le> of_int n \<Longrightarrow> roundEven x \<le> n"
proof -
  assume le: "x \<le> of_int n"
  then have fl: "\<lfloor>x\<rfloor> \<le> n"
    by (simp add: floor_le_iff)
  show ?thesis
  proof (cases "\<lfloor>x\<rfloor> = n")
    case True
    with le have "x - of_int \<lfloor>x\<rfloor> \<le> 0"
      by simp
    then have "x - of_int \<lfloor>x\<rfloor> < 1 / 2"
      by simp
    then show ?thesis
      using True by (simp add: roundEven_def Let_def)
  next
    case False
    with fl have "\<lfloor>x\<rfloor> + 1 \<le> n"
      by simp
    then show ?thesis
      by (simp add: roundEven_def Let_def)
  qed
qed

lemma rnd_nonneg: "0 \<le> q \<Longrightarrow> 0 \<le> rnd q"
proof -
  assume q: "0 \<le> q"
  have "0 \<le> q / pow2 (expo q - 52)"
    using q pow2_pos [of "expo q - 52"] by simp
  then have "0 \<le> roundEven (q / pow2 (expo q - 52))"
    by (rule roundEven_nonneg)
  then show ?thesis
    using pow2_pos [of "expo q - 52"] by (simp add: rnd_def Let_def)
qed



lemma pow2_powi: "pow2 k = 2 powi k"
  by (simp add: pow2_def power_int_def power_inverse [symmetric] inverse_eq_divide power_one_over)

lemma pow2_strict_mono: "k < k' \<Longrightarrow> pow2 k < pow2 k'"
  by (simp add: pow2_powi power_int_strict_increasing)

lemma pow2_nat: "0 \<le> k \<Longrightarrow> pow2 k = 2 ^ nat k"
  by (simp add: pow2_def)

lemma pow2_neg: "k \<le> 0 \<Longrightarrow> pow2 k = 1 / 2 ^ nat (- k)"
  by (simp add: pow2_def)

lemma expo_bounds:
  assumes "q \<noteq> 0"
  shows "pow2 (expo q) \<le> \<bar>q\<bar> \<and> \<bar>q\<bar> < pow2 (expo q + 1)"
proof (cases "1 \<le> \<bar>q\<bar>")
  case True
  define n where "n = \<lfloor>\<bar>q\<bar>\<rfloor>"
  have n: "0 < n"
    using True by (simp add: n_def)
  have e: "expo q = bitlen n - 1"
    using True by (simp add: expo_def n_def)
  from bitlen_bounds [OF n]
  have lo: "2 ^ nat (bitlen n - 1) \<le> n" and hi: "n + 1 \<le> 2 ^ nat (bitlen n)"
    by auto
  have b1: "1 \<le> bitlen n"
    using n by (simp add: bitlen_alt_def)
  have "(2::rat) ^ nat (bitlen n - 1) = of_int (2 ^ nat (bitlen n - 1))"
    by simp
  also have "\<dots> \<le> of_int n"
    using lo by (simp only: of_int_le_iff)
  also have "\<dots> \<le> \<bar>q\<bar>"
    by (simp add: n_def)
  finally have 1: "pow2 (expo q) \<le> \<bar>q\<bar>"
    using b1 by (simp add: e pow2_nat)
  have "\<bar>q\<bar> < of_int (n + 1)"
    unfolding n_def by linarith
  also have "(of_int (n + 1) :: rat) \<le> of_int (2 ^ nat (bitlen n))"
    using hi by (simp only: of_int_le_iff)
  also have "\<dots> = 2 ^ nat (bitlen n)"
    by simp
  finally have 2: "\<bar>q\<bar> < pow2 (expo q + 1)"
    using b1 by (simp add: e pow2_nat)
  from 1 2 show ?thesis ..
next
  case False
  define r where "r = 1 / \<bar>q\<bar>"
  define n where "n = \<lceil>r\<rceil> - 1"
  define j where "j = bitlen n"
  have q: "0 < \<bar>q\<bar>" "\<bar>q\<bar> < 1"
    using assms False by auto
  then have r: "1 < r"
    by (simp add: r_def)
  then have n: "0 < n"
    unfolding n_def by linarith
  have e: "expo q = - j"
    using False by (simp add: expo_def j_def n_def r_def)
  from bitlen_bounds [OF n]
  have lo: "2 ^ nat (j - 1) \<le> n" and hi: "n + 1 \<le> 2 ^ nat j"
    by (auto simp: j_def)
  have j1: "1 \<le> j"
    using n by (simp add: j_def bitlen_alt_def)
  have "r \<le> of_int (n + 1)"
    unfolding n_def by simp
  also have "(of_int (n + 1) :: rat) \<le> of_int (2 ^ nat j)"
    using hi by (simp only: of_int_le_iff)
  finally have "r \<le> 2 ^ nat j"
    by simp
  then have "1 / 2 ^ nat j \<le> \<bar>q\<bar>"
    using q(1) by (simp add: r_def field_simps)
  then have 1: "pow2 (expo q) \<le> \<bar>q\<bar>"
    using j1 by (simp add: e pow2_neg)
  have "(2::rat) ^ nat (j - 1) = of_int (2 ^ nat (j - 1))"
    by simp
  also have "\<dots> \<le> of_int n"
    using lo by (simp only: of_int_le_iff)
  also have "of_int n < r"
    unfolding n_def by linarith
  finally have "2 ^ nat (j - 1) < r" .
  then have "\<bar>q\<bar> < 1 / 2 ^ nat (j - 1)"
    using q(1) by (simp add: r_def field_simps)
  then have 2: "\<bar>q\<bar> < pow2 (expo q + 1)"
    using j1 by (simp add: e pow2_neg)
  from 1 2 show ?thesis ..
qed

lemma expo_unique:
  assumes "pow2 k \<le> \<bar>q\<bar>" and "\<bar>q\<bar> < pow2 (k + 1)"
  shows "expo q = k"
proof -
  have "q \<noteq> 0"
    using assms(1) pow2_pos [of k] by auto
  from expo_bounds [OF this]
  have b: "pow2 (expo q) \<le> \<bar>q\<bar>" "\<bar>q\<bar> < pow2 (expo q + 1)"
    by auto
  have "\<not> k + 1 \<le> expo q"
  proof
    assume "k + 1 \<le> expo q"
    then have "pow2 (k + 1) \<le> pow2 (expo q)"
      using pow2_strict_mono [of "k + 1" "expo q"] by (cases "k + 1 = expo q") auto
    with b(1) assms(2) show False by simp
  qed
  moreover have "\<not> expo q + 1 \<le> k"
  proof
    assume "expo q + 1 \<le> k"
    then have "pow2 (expo q + 1) \<le> pow2 k"
      using pow2_strict_mono [of "expo q + 1" k] by (cases "expo q + 1 = k") auto
    with b(2) assms(1) show False by simp
  qed
  ultimately show ?thesis
    by simp
qed

text \<open>\<open>roundEven x\<close> is the integer nearest to \<open>x\<close>, the even one of the two at a tie.\<close>

lemma roundEven_unique:
  assumes "nearestEven x m"
  shows "roundEven x = m"
proof -
  define f where "f = \<lfloor>x\<rfloor>"
  have fl: "of_int f \<le> x" "x < of_int f + 1"
    unfolding f_def by linarith+
  from assms consider "\<bar>x - of_int m\<bar> < 1 / 2" | "x = of_int m + 1 / 2" "even m"
    | "x = of_int m - 1 / 2" "even m"
    unfolding nearestEven_def by (auto simp: abs_if split: if_splits)
  then show ?thesis
  proof cases
    case 1
    then have "of_int m - 1 / 2 < x" "x < of_int m + 1 / 2"
      by (auto simp: abs_if split: if_splits)
    with fl have "(of_int f :: rat) < of_int m + 1" "(of_int m :: rat) < of_int f + 2"
      by auto
    then have "f < m + 1" "m < f + 2"
      by (simp_all only: of_int_less_iff [symmetric, where 'a = rat] of_int_add of_int_numeral of_int_1)
    then consider "f = m" | "f = m - 1"
      by linarith
    then show ?thesis
    proof cases
      case 1
      with \<open>x < of_int m + 1 / 2\<close> show ?thesis
        by (simp add: roundEven_def Let_def f_def [symmetric])
    next
      case 2
      with \<open>of_int m - 1 / 2 < x\<close> show ?thesis
        by (simp add: roundEven_def Let_def f_def [symmetric])
    qed
  next
    case 2
    have fx: "\<lfloor>x\<rfloor> = m"
      using 2(1) by (intro floor_unique) simp_all
    have r: "x - of_int m = 1 / 2"
      using 2(1) by simp
    show ?thesis
      unfolding roundEven_def Let_def fx r using 2(2) by simp
  next
    case 3
    have fx: "\<lfloor>x\<rfloor> = m - 1"
      using 3(1) by (intro floor_unique) simp_all
    have r: "x - of_int (m - 1) = 1 / 2"
      using 3(1) by simp
    show ?thesis
      unfolding roundEven_def Let_def fx r using 3(2) by simp
  qed
qed

lemma rnd_eqI:
  assumes "pow2 (e + 52) \<le> \<bar>q\<bar>" and "\<bar>q\<bar> < pow2 (e + 53)"
    and "nearestEven (q / pow2 e) m"
  shows "rnd q = of_int m * pow2 e"
proof -
  have "expo q = e + 52"
    using assms(1,2) by (intro expo_unique) (simp_all add: add.commute add.left_commute)
  moreover have "q \<noteq> 0"
    using assms(1) pow2_pos [of "e + 52"] by auto
  ultimately show ?thesis
    using roundEven_unique [OF assms(3)] by (simp add: rnd_def Let_def)
qed

lemma roundEven_nearest: "nearestEven x (roundEven x)"
proof -
  define f where "f = \<lfloor>x\<rfloor>"
  define r where "r = x - of_int f"
  have r: "0 \<le> r" "r < 1"
    unfolding r_def f_def by linarith+
  have x: "x = of_int f + r"
    by (simp add: r_def)
  have re: "roundEven x = (if r < 1 / 2 then f else if 1 / 2 < r then f + 1
      else if even f then f else f + 1)"
    by (simp add: roundEven_def Let_def f_def r_def)
  have ne: "nearestEven x m" if "\<bar>r - of_int (m - f)\<bar> < 1 / 2 \<or>
      (\<bar>r - of_int (m - f)\<bar> = 1 / 2 \<and> even m)" for m
    using that by (simp add: nearestEven_def r_def algebra_simps)
  consider "r < 1 / 2" | "1 / 2 < r" | "r = 1 / 2" "even f" | "r = 1 / 2" "odd f"
    by fastforce
  then show ?thesis
  proof cases
    case 1
    then have "roundEven x = f"
      by (simp add: re)
    moreover have "nearestEven x f"
      using 1 r by (intro ne) simp
    ultimately show ?thesis by simp
  next
    case 2
    then have "roundEven x = f + 1"
      by (simp add: re)
    moreover have "nearestEven x (f + 1)"
      using 2 r by (intro ne) simp
    ultimately show ?thesis by simp
  next
    case 3
    then have "roundEven x = f"
      by (simp add: re)
    moreover have "nearestEven x f"
      using 3 by (intro ne) simp
    ultimately show ?thesis by simp
  next
    case 4
    then have "roundEven x = f + 1"
      by (simp add: re)
    moreover have "nearestEven x (f + 1)"
      using 4 by (intro ne) simp
    ultimately show ?thesis by simp
  qed
qed

lemma nearestEven_minus: "nearestEven x m \<Longrightarrow> nearestEven (- x) (- m)"
proof -
  have "\<bar>- x - of_int (- m)\<bar> = \<bar>x - of_int m\<bar>"
    by (simp add: abs_minus_commute)
  then show "nearestEven x m \<Longrightarrow> nearestEven (- x) (- m)"
    by (simp add: nearestEven_def)
qed

lemma roundEven_minus: "roundEven (- x) = - roundEven x"
  by (rule roundEven_unique [OF nearestEven_minus [OF roundEven_nearest]])

lemma rnd_minus: "rnd (- q) = - rnd q"
  by (simp add: rnd_def Let_def expo_def roundEven_minus)
section \<open>The exponent range\<close>

lemma pow2_add: "pow2 (a + b) = pow2 a * pow2 b"
  by (simp add: pow2_powi power_int_add)

lemma pow2_mono: "k \<le> k' \<Longrightarrow> pow2 k \<le> pow2 k'"
  by (simp add: pow2_powi power_int_increasing)

lemma expo_le:
  assumes "q \<noteq> 0" and "\<bar>q\<bar> \<le> pow2 k"
  shows "expo q \<le> k"
proof (rule ccontr)
  assume "\<not> expo q \<le> k"
  then have "k + 1 \<le> expo q"
    by simp
  then have "pow2 (k + 1) \<le> pow2 (expo q)"
    by (rule pow2_mono)
  moreover have "pow2 k < pow2 (k + 1)"
    by (rule pow2_strict_mono) simp
  moreover have "pow2 (expo q) \<le> \<bar>q\<bar>"
    using expo_bounds [OF assms(1)] by simp
  ultimately show False
    using assms(2) by simp
qed

lemma expo_less:
  assumes "q \<noteq> 0" and "\<bar>q\<bar> < pow2 k"
  shows "expo q < k"
proof (rule ccontr)
  assume "\<not> expo q < k"
  then have "pow2 k \<le> pow2 (expo q)"
    by (intro pow2_mono) simp
  moreover have "pow2 (expo q) \<le> \<bar>q\<bar>"
    using expo_bounds [OF assms(1)] by simp
  ultimately show False
    using assms(2) by simp
qed

lemma roundEven_of_int: "roundEven (of_int z) = z"
  by (rule roundEven_unique) (simp add: nearestEven_def)


text \<open>Rounding does not cross a power of two.\<close>

lemma rnd_le_pow2:
  assumes "0 \<le> q" and "q \<le> pow2 k"
  shows "rnd q \<le> pow2 k"
proof (cases "q = 0")
  case True
  then show ?thesis
    using pow2_pos [of k] by (simp add: rnd_zero)
next
  case False
  define e where "e = expo q - 52"
  have "expo q \<le> k"
    using False assms by (intro expo_le) simp_all
  then have ke: "0 \<le> k - e"
    by (simp add: e_def)
  have split: "pow2 k = pow2 (k - e) * pow2 e"
    using pow2_add [of "k - e" e] by simp
  have "q / pow2 e \<le> pow2 (k - e)"
    using assms(2) pow2_pos [of e] by (simp add: split divide_le_eq)
  also have "pow2 (k - e) = of_int (2 ^ nat (k - e))"
    using ke by (simp add: pow2_nat)
  finally have "roundEven (q / pow2 e) \<le> 2 ^ nat (k - e)"
    by (rule roundEven_le)
  then have "(of_int (roundEven (q / pow2 e)) :: rat) \<le> of_int (2 ^ nat (k - e))"
    by (simp only: of_int_le_iff)
  also have "(of_int (2 ^ nat (k - e)) :: rat) = pow2 (k - e)"
    using ke by (simp add: pow2_nat)
  finally have "of_int (roundEven (q / pow2 e)) * pow2 e \<le> pow2 (k - e) * pow2 e"
    using pow2_pos [of e] by (simp add: mult_right_mono)
  then show ?thesis
    using False by (simp add: rnd_def Let_def e_def [symmetric] split)
qed

lemma rnd_abs_le_pow2:
  assumes "\<bar>q\<bar> \<le> pow2 k"
  shows "\<bar>rnd q\<bar> \<le> pow2 k"
proof (cases "0 \<le> q")
  case True
  with assms rnd_le_pow2 [of q k] rnd_nonneg [of q] show ?thesis
    by simp
next
  case False
  then have "0 \<le> - q" and "- q \<le> pow2 k"
    using assms by simp_all
  from rnd_le_pow2 [OF this] rnd_nonneg [OF this(1)] show ?thesis
    by (simp add: rnd_minus)
qed

text \<open>An integer is rounded to an integer, and an integer below \<open>2 ^ 53\<close> to itself.\<close>

lemma rnd_of_int_low:
  assumes "expo (of_int n) \<le> 52"
  shows "rnd (of_int n) = of_int n"
proof (cases "n = 0")
  case True
  then show ?thesis
    by (simp add: rnd_zero)
next
  case False
  define e where "e = expo (of_int n) - 52"
  define k where "k = nat (- e)"
  have e: "e \<le> 0"
    using assms by (simp add: e_def)
  then have p: "pow2 e = 1 / 2 ^ k"
    by (simp add: pow2_neg k_def)
  have "of_int n / pow2 e = (of_int (n * 2 ^ k) :: rat)"
    by (simp add: p)
  then have "roundEven (of_int n / pow2 e) = n * 2 ^ k"
    by (simp only: roundEven_of_int)
  then show ?thesis
    using False by (simp add: rnd_def Let_def e_def [symmetric] p)
qed

lemma rnd_of_int_exact:
  assumes "\<bar>n\<bar> < 2 ^ 53"
  shows "rnd (of_int n) = of_int n"
proof (cases "n = 0")
  case True
  then show ?thesis
    by (simp add: rnd_zero)
next
  case False
  have "\<bar>of_int n :: rat\<bar> < of_int (2 ^ 53)"
    using assms by (simp only: of_int_abs [symmetric] of_int_less_iff)
  then have "\<bar>of_int n :: rat\<bar> < pow2 53"
    by (simp add: pow2_def)
  with False have "expo (of_int n) < 53"
    by (intro expo_less) simp_all
  then show ?thesis
    by (intro rnd_of_int_low) simp
qed


lemma round64_zero: "round64 0 = Finite 0"
proof -
  have "roundEven 0 = 0"
    using roundEven_of_int [of 0] by simp
  then show ?thesis
    using pow2_pos [of "- 1022"] pow2_pos [of 1024]
    by (simp add: round64_def Let_def not_le)
qed

lemma round64_normal:
  assumes "pow2 (- 1022) \<le> \<bar>q\<bar>" and "\<bar>rnd q\<bar> < pow2 1024"
  shows "round64 q = Finite (rnd q)"
  using assms by (auto simp: round64_def Let_def)

lemma round64_of_int:
  assumes "\<bar>n\<bar> < 2 ^ 53"
  shows "round64 (of_int n) = Finite (of_int n)"
proof (cases "n = 0")
  case True
  then show ?thesis
    by (simp add: round64_zero)
next
  case False
  have r: "rnd (of_int n) = of_int n"
    using assms by (rule rnd_of_int_exact)
  have "pow2 (- 1022) \<le> pow2 0"
    by (rule pow2_mono) simp
  also have "pow2 0 = 1"
    by (simp add: pow2_def)
  also have "(1 :: rat) \<le> of_int \<bar>n\<bar>"
    using False by simp
  finally have low: "pow2 (- 1022) \<le> \<bar>of_int n :: rat\<bar>"
    by simp
  have "(of_int \<bar>n\<bar> :: rat) < of_int (2 ^ 53)"
    using assms by (simp only: of_int_less_iff)
  also have "(of_int (2 ^ 53) :: rat) = pow2 53"
    by (simp add: pow2_def)
  also have "pow2 53 \<le> pow2 1024"
    by (rule pow2_mono) simp
  finally have "\<bar>rnd (of_int n)\<bar> < pow2 1024"
    by (simp add: r)
  with low show ?thesis
    by (simp add: round64_normal r)
qed

lemma double_add_int:
  "\<bar>a + b\<bar> < 2 ^ 53 \<Longrightarrow>
     double_add (Finite (of_int a)) (Finite (of_int b)) = Finite (of_int (a + b))"
  using round64_of_int [of "a + b"] by simp

lemma double_sub_int:
  "\<bar>a - b\<bar> < 2 ^ 53 \<Longrightarrow>
     double_sub (Finite (of_int a)) (Finite (of_int b)) = Finite (of_int (a - b))"
  using round64_of_int [of "a - b"] by (simp add: double_sub_def double_neg_def)

lemma double_mul_int:
  "\<bar>a * b\<bar> < 2 ^ 53 \<Longrightarrow>
     double_mul (Finite (of_int a)) (Finite (of_int b)) = Finite (of_int (a * b))"
  using round64_of_int [of "a * b"] by simp

lemma double_max0_int: "double_max0 (Finite (of_int a)) = Finite (of_int (max 0 a))"
  by (simp add: double_max0_def max_def)

text \<open>The quotient of two integers below \<open>2 ^ 53\<close> is in the normal range.\<close>

lemma round64_quotient:
  assumes i: "\<bar>i\<bar> < 2 ^ 53" and u: "\<bar>u\<bar> < 2 ^ 53" and u0: "u \<noteq> 0"
  shows "round64 (of_int i / of_int u) = Finite (rnd (of_int i / of_int u))"
proof (cases "i = 0")
  case True
  then show ?thesis
    by (simp add: round64_zero rnd_zero)
next
  case False
  define q :: rat where "q = of_int i / of_int u"
  have au: "(1 :: rat) \<le> of_int \<bar>u\<bar>" and ai: "(1 :: rat) \<le> of_int \<bar>i\<bar>"
    using u0 False by simp_all
  have ub: "(of_int \<bar>u\<bar> :: rat) < 2 ^ 53" and ib: "(of_int \<bar>i\<bar> :: rat) < 2 ^ 53"
    using u i by (simp_all only: of_int_less_numeral_power_cancel_iff)
  have absq: "\<bar>q\<bar> = of_int \<bar>i\<bar> / of_int \<bar>u\<bar>"
    by (simp add: q_def)
  have "\<bar>q\<bar> \<le> of_int \<bar>i\<bar>"
    unfolding absq using au ai divide_left_mono [of 1 "of_int \<bar>u\<bar> :: rat" "of_int \<bar>i\<bar>"]
    by simp
  also have "\<dots> \<le> pow2 53"
    using ib by (simp add: pow2_def)
  finally have "\<bar>rnd q\<bar> \<le> pow2 53"
    by (rule rnd_abs_le_pow2)
  also have "pow2 53 < pow2 1024"
    by (rule pow2_strict_mono) simp
  finally have high: "\<bar>rnd q\<bar> < pow2 1024" .
  have "pow2 (- 1022) \<le> pow2 (- 53)"
    by (rule pow2_mono) simp
  also have "pow2 (- 53) = 1 / 2 ^ 53"
    by (simp add: pow2_def)
  also have "\<dots> \<le> 1 / of_int \<bar>u\<bar>"
    using au ub by (simp add: frac_le)
  also have "\<dots> \<le> \<bar>q\<bar>"
    unfolding absq using au ai divide_right_mono [of 1 "of_int \<bar>i\<bar> :: rat" "of_int \<bar>u\<bar>"]
    by simp
  finally have "pow2 (- 1022) \<le> \<bar>q\<bar>" .
  from round64_normal [OF this high] show ?thesis
    by (simp add: q_def)
qed

text \<open>On small boxes binary64 computes the areas exactly, and only the quotient is
  rounded.\<close>

lemma calculateIoU_small:
  assumes "smallBox (a0, a1, a2, a3)" and "smallBox (b0, b1, b2, b3)"
  shows "calculateIoU (a0, a1, a2, a3) (b0, b1, b2, b3) =
     (let interArea = max 0 (min a3 b3 - max a1 b1) * max 0 (min a2 b2 - max a0 b0);
          divisor = (a2 - a0) * (a3 - a1) + (b2 - b0) * (b3 - b1) - interArea
      in if divisor = 0 then Some 0 else Some (rnd (of_int interArea / of_int divisor)))"
proof -
  define w where "w = max 0 (min a3 b3 - max a1 b1)"
  define h where "h = max 0 (min a2 b2 - max a0 b0)"
  define hA where "hA = a2 - a0"
  define wA where "wA = a3 - a1"
  define hB where "hB = b2 - b0"
  define wB where "wB = b3 - b1"
  have small: "\<bar>a0\<bar> \<le> 2 ^ 24" "\<bar>a1\<bar> \<le> 2 ^ 24" "\<bar>a2\<bar> \<le> 2 ^ 24" "\<bar>a3\<bar> \<le> 2 ^ 24"
    "\<bar>b0\<bar> \<le> 2 ^ 24" "\<bar>b1\<bar> \<le> 2 ^ 24" "\<bar>b2\<bar> \<le> 2 ^ 24" "\<bar>b3\<bar> \<le> 2 ^ 24"
    using assms by (simp_all add: smallBox_def)
  have diff: "\<bar>x - y\<bar> \<le> 2 ^ 25" if "\<bar>x\<bar> \<le> 2 ^ 24" "\<bar>y\<bar> \<le> 2 ^ 24" for x y :: int
    using that by simp
  have mm: "\<bar>min x y\<bar> \<le> 2 ^ 24" "\<bar>max x y\<bar> \<le> 2 ^ 24"
    if "\<bar>x\<bar> \<le> 2 ^ 24" "\<bar>y\<bar> \<le> 2 ^ 24" for x y :: int
    using that by (simp_all add: min_def max_def)
  have side: "\<bar>hA\<bar> \<le> 2 ^ 25" "\<bar>wA\<bar> \<le> 2 ^ 25" "\<bar>hB\<bar> \<le> 2 ^ 25" "\<bar>wB\<bar> \<le> 2 ^ 25"
    unfolding hA_def wA_def hB_def wB_def by (intro diff small)+
  have inter: "\<bar>min a3 b3 - max a1 b1\<bar> \<le> 2 ^ 25" "\<bar>min a2 b2 - max a0 b0\<bar> \<le> 2 ^ 25"
    by (intro diff mm small)+
  then have wh: "\<bar>w\<bar> \<le> 2 ^ 25" "\<bar>h\<bar> \<le> 2 ^ 25"
    by (auto simp: w_def h_def abs_le_iff max_def)
  have prod: "\<bar>x * y\<bar> \<le> 2 ^ 50" if "\<bar>x\<bar> \<le> 2 ^ 25" "\<bar>y\<bar> \<le> 2 ^ 25" for x y :: int
  proof -
    have "\<bar>x\<bar> * \<bar>y\<bar> \<le> 2 ^ 25 * 2 ^ 25"
      using that by (intro mult_mono) simp_all
    then show ?thesis
      by (simp add: abs_mult)
  qed
  have area: "\<bar>hA * wA\<bar> \<le> 2 ^ 50" "\<bar>hB * wB\<bar> \<le> 2 ^ 50" "\<bar>w * h\<bar> \<le> 2 ^ 50"
    using side wh by (simp_all only: prod)
  have d1: "double_sub (Finite (of_int (min a3 b3))) (Finite (of_int (max a1 b1))) =
      Finite (of_int (min a3 b3 - max a1 b1))"
    and d2: "double_sub (Finite (of_int (min a2 b2))) (Finite (of_int (max a0 b0))) =
      Finite (of_int (min a2 b2 - max a0 b0))"
    and d3: "double_sub (Finite (of_int a2)) (Finite (of_int a0)) = Finite (of_int hA)"
    and d4: "double_sub (Finite (of_int a3)) (Finite (of_int a1)) = Finite (of_int wA)"
    and d5: "double_sub (Finite (of_int b2)) (Finite (of_int b0)) = Finite (of_int hB)"
    and d6: "double_sub (Finite (of_int b3)) (Finite (of_int b1)) = Finite (of_int wB)"
    using side inter by (simp_all add: double_sub_int hA_def wA_def hB_def wB_def)
  have m1: "double_mul (Finite (of_int w)) (Finite (of_int h)) = Finite (of_int (w * h))"
    by (rule double_mul_int) (use area in simp)
  have m2: "double_mul (Finite (of_int hA)) (Finite (of_int wA)) = Finite (of_int (hA * wA))"
    by (rule double_mul_int) (use area in simp)
  have m3: "double_mul (Finite (of_int hB)) (Finite (of_int wB)) = Finite (of_int (hB * wB))"
    by (rule double_mul_int) (use area in simp)
  have s1: "double_add (Finite (of_int (hA * wA))) (Finite (of_int (hB * wB))) =
      Finite (of_int (hA * wA + hB * wB))"
    using area by (intro double_add_int) simp
  define i where "i = w * h"
  define u where "u = hA * wA + hB * wB - i"
  have ib: "\<bar>i\<bar> < 2 ^ 53" and ub: "\<bar>u\<bar> < 2 ^ 53"
    using area by (simp_all add: i_def u_def)
  have s2: "double_sub (Finite (of_int (hA * wA + hB * wB))) (Finite (of_int i)) =
      Finite (of_int u)"
    unfolding u_def by (rule double_sub_int) (use ub in \<open>simp add: u_def\<close>)
  have c64: "calculateIoU64 (a0, a1, a2, a3) (b0, b1, b2, b3) =
      (if Finite (of_int u) = Finite 0 then Finite 0
       else double_quot (Finite (of_int i)) (Finite (of_int u)))"
    unfolding calculateIoU64_def Let_def prod.case d1 d2 d3 d4 d5 d6 double_max0_int
      w_def [symmetric] h_def [symmetric] m1 m2 m3 s1 i_def [symmetric] s2
    by (rule refl)
  have q: "round64 (of_int i / of_int u) = Finite (rnd (of_int i / of_int u))" if "u \<noteq> 0"
    using ib ub that by (rule round64_quotient)
  have c: "calculateIoU64 (a0, a1, a2, a3) (b0, b1, b2, b3) =
      (if u = 0 then Finite 0 else Finite (rnd (of_int i / of_int u)))"
    by (simp add: c64 q)
  show ?thesis
    unfolding calculateIoU_def c Let_def w_def [symmetric] h_def [symmetric]
      hA_def [symmetric] wA_def [symmetric] hB_def [symmetric] wB_def [symmetric]
      i_def [symmetric] u_def [symmetric]
    by simp
qed

section \<open>The result of \<open>calculateIoU\<close> is not an infinity\<close>














section \<open>Evaluating the examples\<close>

text \<open>The roundings the examples need, each checked against the characterisation
  of \<open>rnd\<close>: the exponent and the significand are given.\<close>

lemma rnd_1_1000: "rnd (1 / 1000) = 1152921504606847 / 1152921504606846976"
  by (rule rnd_eqI [where e = "- 62" and m = 4611686018427388, THEN trans])
    (simp_all add: pow2_def nearestEven_def)

lemma rnd_1_200: "rnd (1 / 200) = 5764607523034235 / 1152921504606846976"
  by (rule rnd_eqI [where e = "- 60" and m = 5764607523034235, THEN trans])
    (simp_all add: pow2_def nearestEven_def)

lemma rnd_1441151880758555_108086391056891904: "rnd (1441151880758555 / 108086391056891904) = 7686143364045627 / 576460752303423488"
  by (rule rnd_eqI [where e = "- 59" and m = 7686143364045627, THEN trans])
    (simp_all add: pow2_def nearestEven_def)

lemma rnd_360287970189639_18014398509481984: "rnd (360287970189639 / 18014398509481984) = 360287970189639 / 18014398509481984"
  by (rule rnd_eqI [where e = "- 58" and m = 5764607523034224, THEN trans])
    (simp_all add: pow2_def nearestEven_def)

lemma rnd_45035996273705_2251799813685248: "rnd (45035996273705 / 2251799813685248) = 45035996273705 / 2251799813685248"
  by (rule rnd_eqI [where e = "- 58" and m = 5764607523034240, THEN trans])
    (simp_all add: pow2_def nearestEven_def)

lemma rnd_540431955284459_18014398509481984: "rnd (540431955284459 / 18014398509481984) = 540431955284459 / 18014398509481984"
  by (rule rnd_eqI [where e = "- 58" and m = 8646911284551344, THEN trans])
    (simp_all add: pow2_def nearestEven_def)

lemma rnd_3_100: "rnd (3 / 100) = 1080863910568919 / 36028797018963968"
  by (rule rnd_eqI [where e = "- 58" and m = 8646911284551352, THEN trans])
    (simp_all add: pow2_def nearestEven_def)

lemma rnd_360287970189639_9007199254740992: "rnd (360287970189639 / 9007199254740992) = 360287970189639 / 9007199254740992"
  by (rule rnd_eqI [where e = "- 57" and m = 5764607523034224, THEN trans])
    (simp_all add: pow2_def nearestEven_def)

lemma rnd_1441151880758559_36028797018963968: "rnd (1441151880758559 / 36028797018963968) = 1441151880758559 / 36028797018963968"
  by (rule rnd_eqI [where e = "- 57" and m = 5764607523034236, THEN trans])
    (simp_all add: pow2_def nearestEven_def)

lemma rnd_900719925474099_18014398509481984: "rnd (900719925474099 / 18014398509481984) = 900719925474099 / 18014398509481984"
  by (rule rnd_eqI [where e = "- 57" and m = 7205759403792792, THEN trans])
    (simp_all add: pow2_def nearestEven_def)

lemma rnd_1_20: "rnd (1 / 20) = 3602879701896397 / 72057594037927936"
  by (rule rnd_eqI [where e = "- 57" and m = 7205759403792794, THEN trans])
    (simp_all add: pow2_def nearestEven_def)

lemma rnd_3602879701896397_72057594037927936: "rnd (3602879701896397 / 72057594037927936) = 3602879701896397 / 72057594037927936"
  by (rule rnd_eqI [where e = "- 57" and m = 7205759403792794, THEN trans])
    (simp_all add: pow2_def nearestEven_def)

lemma rnd_1_19: "rnd (1 / 19) = 948126237341157 / 18014398509481984"
  by (rule rnd_eqI [where e = "- 57" and m = 7585009898729256, THEN trans])
    (simp_all add: pow2_def nearestEven_def)

lemma rnd_1080863910568917_18014398509481984: "rnd (1080863910568917 / 18014398509481984) = 1080863910568917 / 18014398509481984"
  by (rule rnd_eqI [where e = "- 57" and m = 8646911284551336, THEN trans])
    (simp_all add: pow2_def nearestEven_def)

lemma rnd_1080863910568919_18014398509481984: "rnd (1080863910568919 / 18014398509481984) = 1080863910568919 / 18014398509481984"
  by (rule rnd_eqI [where e = "- 57" and m = 8646911284551352, THEN trans])
    (simp_all add: pow2_def nearestEven_def)

lemma rnd_1441151880758555_18014398509481984: "rnd (1441151880758555 / 18014398509481984) = 1441151880758555 / 18014398509481984"
  by (rule rnd_eqI [where e = "- 56" and m = 5764607523034220, THEN trans])
    (simp_all add: pow2_def nearestEven_def)

lemma rnd_360287970189639_4503599627370496: "rnd (360287970189639 / 4503599627370496) = 360287970189639 / 4503599627370496"
  by (rule rnd_eqI [where e = "- 56" and m = 5764607523034224, THEN trans])
    (simp_all add: pow2_def nearestEven_def)

lemma rnd_1801439850948195_18014398509481984: "rnd (1801439850948195 / 18014398509481984) = 1801439850948195 / 18014398509481984"
  by (rule rnd_eqI [where e = "- 56" and m = 7205759403792780, THEN trans])
    (simp_all add: pow2_def nearestEven_def)

lemma rnd_1_10: "rnd (1 / 10) = 3602879701896397 / 36028797018963968"
  by (rule rnd_eqI [where e = "- 56" and m = 7205759403792794, THEN trans])
    (simp_all add: pow2_def nearestEven_def)

lemma rnd_7_50: "rnd (7 / 50) = 1261007895663739 / 9007199254740992"
  by (rule rnd_eqI [where e = "- 55" and m = 5044031582654956, THEN trans])
    (simp_all add: pow2_def nearestEven_def)

lemma rnd_3_20: "rnd (3 / 20) = 5404319552844595 / 36028797018963968"
  by (rule rnd_eqI [where e = "- 55" and m = 5404319552844595, THEN trans])
    (simp_all add: pow2_def nearestEven_def)

lemma rnd_1_5: "rnd (1 / 5) = 3602879701896397 / 18014398509481984"
  by (rule rnd_eqI [where e = "- 55" and m = 7205759403792794, THEN trans])
    (simp_all add: pow2_def nearestEven_def)

lemma rnd_1_4: "rnd (1 / 4) = 1 / 4"
  by (rule rnd_eqI [where e = "- 54" and m = 4503599627370496, THEN trans])
    (simp_all add: pow2_def nearestEven_def)

lemma rnd_1_3: "rnd (1 / 3) = 6004799503160661 / 18014398509481984"
  by (rule rnd_eqI [where e = "- 54" and m = 6004799503160661, THEN trans])
    (simp_all add: pow2_def nearestEven_def)

lemma rnd_7_20: "rnd (7 / 20) = 3152519739159347 / 9007199254740992"
  by (rule rnd_eqI [where e = "- 54" and m = 6305039478318694, THEN trans])
    (simp_all add: pow2_def nearestEven_def)

lemma rnd_2_5: "rnd (2 / 5) = 3602879701896397 / 9007199254740992"
  by (rule rnd_eqI [where e = "- 54" and m = 7205759403792794, THEN trans])
    (simp_all add: pow2_def nearestEven_def)

lemma rnd_3_7: "rnd (3 / 7) = 7720456504063707 / 18014398509481984"
  by (rule rnd_eqI [where e = "- 54" and m = 7720456504063707, THEN trans])
    (simp_all add: pow2_def nearestEven_def)

lemma rnd_43_100: "rnd (43 / 100) = 7746191359077253 / 18014398509481984"
  by (rule rnd_eqI [where e = "- 54" and m = 7746191359077253, THEN trans])
    (simp_all add: pow2_def nearestEven_def)

lemma rnd_9_20: "rnd (9 / 20) = 8106479329266893 / 18014398509481984"
  by (rule rnd_eqI [where e = "- 54" and m = 8106479329266893, THEN trans])
    (simp_all add: pow2_def nearestEven_def)

lemma rnd_47_100: "rnd (47 / 100) = 2116691824864133 / 4503599627370496"
  by (rule rnd_eqI [where e = "- 54" and m = 8466767299456532, THEN trans])
    (simp_all add: pow2_def nearestEven_def)

lemma rnd_12_25: "rnd (12 / 25) = 1080863910568919 / 2251799813685248"
  by (rule rnd_eqI [where e = "- 54" and m = 8646911284551352, THEN trans])
    (simp_all add: pow2_def nearestEven_def)

lemma rnd_1_2: "rnd (1 / 2) = 1 / 2"
  by (rule rnd_eqI [where e = "- 53" and m = 4503599627370496, THEN trans])
    (simp_all add: pow2_def nearestEven_def)

lemma rnd_51_100: "rnd (51 / 100) = 2296835809958953 / 4503599627370496"
  by (rule rnd_eqI [where e = "- 53" and m = 4593671619917906, THEN trans])
    (simp_all add: pow2_def nearestEven_def)

lemma rnd_7_13: "rnd (7 / 13) = 4850030367937457 / 9007199254740992"
  by (rule rnd_eqI [where e = "- 53" and m = 4850030367937457, THEN trans])
    (simp_all add: pow2_def nearestEven_def)

lemma rnd_13_20: "rnd (13 / 20) = 5854679515581645 / 9007199254740992"
  by (rule rnd_eqI [where e = "- 53" and m = 5854679515581645, THEN trans])
    (simp_all add: pow2_def nearestEven_def)

lemma rnd_2_3: "rnd (2 / 3) = 6004799503160661 / 9007199254740992"
  by (rule rnd_eqI [where e = "- 53" and m = 6004799503160661, THEN trans])
    (simp_all add: pow2_def nearestEven_def)

lemma rnd_4_5: "rnd (4 / 5) = 3602879701896397 / 4503599627370496"
  by (rule rnd_eqI [where e = "- 53" and m = 7205759403792794, THEN trans])
    (simp_all add: pow2_def nearestEven_def)

lemma rnd_1_1: "rnd 1 = 1"
  by (rule rnd_eqI [where e = "- 52" and m = 4503599627370496, THEN trans])
    (simp_all add: pow2_def nearestEven_def)

lemma rnd_45035996273704875_2251799813685248: "rnd (45035996273704875 / 2251799813685248) = 5629499534213109 / 281474976710656"
  by (rule rnd_eqI [where e = "- 48" and m = 5629499534213109, THEN trans])
    (simp_all add: pow2_def nearestEven_def)

lemma rnd_5629499534213125_281474976710656: "rnd (5629499534213125 / 281474976710656) = 5629499534213125 / 281474976710656"
  by (rule rnd_eqI [where e = "- 48" and m = 5629499534213125, THEN trans])
    (simp_all add: pow2_def nearestEven_def)

lemma rnd_16888498602639327_562949953421312: "rnd (16888498602639327 / 562949953421312) = 527765581332479 / 17592186044416"
  by (rule rnd_eqI [where e = "- 48" and m = 8444249301319664, THEN trans])
    (simp_all add: pow2_def nearestEven_def)

lemma rnd_67553994410557375_2251799813685248: "rnd (67553994410557375 / 2251799813685248) = 1055531162664959 / 35184372088832"
  by (rule rnd_eqI [where e = "- 48" and m = 8444249301319672, THEN trans])
    (simp_all add: pow2_def nearestEven_def)

lemma rnd_16888498602639375_562949953421312: "rnd (16888498602639375 / 562949953421312) = 1055531162664961 / 35184372088832"
  by (rule rnd_eqI [where e = "- 48" and m = 8444249301319688, THEN trans])
    (simp_all add: pow2_def nearestEven_def)

lemma rnd_3166593487994877_70368744177664: "rnd (3166593487994877 / 70368744177664) = 3166593487994877 / 70368744177664"
  by (rule rnd_eqI [where e = "- 47" and m = 6333186975989754, THEN trans])
    (simp_all add: pow2_def nearestEven_def)

lemma rnd_50_1: "rnd 50 = 50"
  by (rule rnd_eqI [where e = "- 47" and m = 7036874417766400, THEN trans])
    (simp_all add: pow2_def nearestEven_def)

lemma rnd_135107988821114875_2251799813685248: "rnd (135107988821114875 / 2251799813685248) = 60"
  by (rule rnd_eqI [where e = "- 47" and m = 8444249301319680, THEN trans])
    (simp_all add: pow2_def nearestEven_def)

lemma rnd_90_1: "rnd 90 = 90"
  by (rule rnd_eqI [where e = "- 46" and m = 6333186975989760, THEN trans])
    (simp_all add: pow2_def nearestEven_def)

lemma rnd_100_1: "rnd 100 = 100"
  by (rule rnd_eqI [where e = "- 46" and m = 7036874417766400, THEN trans])
    (simp_all add: pow2_def nearestEven_def)

lemma rnd_140_1: "rnd 140 = 140"
  by (rule rnd_eqI [where e = "- 45" and m = 4925812092436480, THEN trans])
    (simp_all add: pow2_def nearestEven_def)

lemma rnd_200_1: "rnd 200 = 200"
  by (rule rnd_eqI [where e = "- 45" and m = 7036874417766400, THEN trans])
    (simp_all add: pow2_def nearestEven_def)

lemma rnd_350_1: "rnd 350 = 350"
  by (rule rnd_eqI [where e = "- 44" and m = 6157265115545600, THEN trans])
    (simp_all add: pow2_def nearestEven_def)

lemma rnd_400_1: "rnd 400 = 400"
  by (rule rnd_eqI [where e = "- 44" and m = 7036874417766400, THEN trans])
    (simp_all add: pow2_def nearestEven_def)

lemma rnd_430_1: "rnd 430 = 430"
  by (rule rnd_eqI [where e = "- 44" and m = 7564639999098880, THEN trans])
    (simp_all add: pow2_def nearestEven_def)

lemma rnd_450_1: "rnd 450 = 450"
  by (rule rnd_eqI [where e = "- 44" and m = 7916483719987200, THEN trans])
    (simp_all add: pow2_def nearestEven_def)

lemma rnd_470_1: "rnd 470 = 470"
  by (rule rnd_eqI [where e = "- 44" and m = 8268327440875520, THEN trans])
    (simp_all add: pow2_def nearestEven_def)

lemma rnd_480_1: "rnd 480 = 480"
  by (rule rnd_eqI [where e = "- 44" and m = 8444249301319680, THEN trans])
    (simp_all add: pow2_def nearestEven_def)

lemma rnd_500_1: "rnd 500 = 500"
  by (rule rnd_eqI [where e = "- 44" and m = 8796093022208000, THEN trans])
    (simp_all add: pow2_def nearestEven_def)

lemma rnd_510_1: "rnd 510 = 510"
  by (rule rnd_eqI [where e = "- 44" and m = 8972014882652160, THEN trans])
    (simp_all add: pow2_def nearestEven_def)

lemma rnd_650_1: "rnd 650 = 650"
  by (rule rnd_eqI [where e = "- 43" and m = 5717460464435200, THEN trans])
    (simp_all add: pow2_def nearestEven_def)

lemma rnd_800_1: "rnd 800 = 800"
  by (rule rnd_eqI [where e = "- 43" and m = 7036874417766400, THEN trans])
    (simp_all add: pow2_def nearestEven_def)

lemmas rnd_values =
  rnd_1_1000 rnd_1_200 rnd_1441151880758555_108086391056891904
  rnd_360287970189639_18014398509481984 rnd_45035996273705_2251799813685248
  rnd_540431955284459_18014398509481984 rnd_3_100 rnd_360287970189639_9007199254740992
  rnd_1441151880758559_36028797018963968 rnd_900719925474099_18014398509481984 rnd_1_20
  rnd_3602879701896397_72057594037927936 rnd_1_19
  rnd_1080863910568917_18014398509481984 rnd_1080863910568919_18014398509481984
  rnd_1441151880758555_18014398509481984 rnd_360287970189639_4503599627370496
  rnd_1801439850948195_18014398509481984 rnd_1_10 rnd_7_50 rnd_3_20 rnd_1_5 rnd_1_4
  rnd_1_3 rnd_7_20 rnd_2_5 rnd_3_7 rnd_43_100 rnd_9_20 rnd_47_100 rnd_12_25 rnd_1_2
  rnd_51_100 rnd_7_13 rnd_13_20 rnd_2_3 rnd_4_5 rnd_1_1
  rnd_45035996273704875_2251799813685248 rnd_5629499534213125_281474976710656
  rnd_16888498602639327_562949953421312 rnd_67553994410557375_2251799813685248
  rnd_16888498602639375_562949953421312 rnd_3166593487994877_70368744177664 rnd_50_1
  rnd_135107988821114875_2251799813685248 rnd_90_1 rnd_100_1 rnd_140_1 rnd_200_1
  rnd_350_1 rnd_400_1 rnd_430_1 rnd_450_1 rnd_470_1 rnd_480_1 rnd_500_1 rnd_510_1
  rnd_650_1 rnd_800_1

lemma floor_numeral_divide:
  "\<lfloor>(numeral a / numeral b :: rat)\<rfloor> = numeral a div numeral b"
  using floor_divide_of_int_eq [of "numeral a" "numeral b", where 'a = rat] by simp

lemma flagDetections_Nil: "flagDetections trks dd [] ds = ds"
  by (simp add: flagDetections_def)

lemma flagDetections_Cons:
  "flagDetections trks dd (k # ks) ds =
     flagDetections trks dd ks (ds[k := applyFlags trks dd (ds ! k)])"
  by (simp add: flagDetections_def)

lemmas phase_eval = floor_numeral_divide createPhase_def matchPhase_def createTracks_def
  filterValid_def agedTracks_def matchTrack_def findBestMatch_def scanDetection_def
  matchUpdate_def laneCheck_def annotate_def createTrack_def getCentroid_def calculateIoU_small
  smallBox_def js_add_def js_sub_def js_mul_def js_quot_def isValid_def iouThreshold_def Let_def
  rnd_minus rnd_zero

lemmas flag_eval = flagDetections_Nil flagDetections_Cons dominantFlow_def wrongWay_def
  applyFlags_def SPEED_LIMIT_def maxMissingFrames_def js_add_def js_sub_def js_quot_def Let_def
  rnd_minus rnd_zero filterValid_def isValid_def

lemma speed_step1: "update newTracker speedFrame1 0 = (speedState1, speedOut1)"
proof -
  have "createPhase newTracker speedFrame1 0 =
    (tracks speedState1, nextId speedState1,
     map (\<lambda>d. d\<lparr>isSpeeding := None, isWrongWay := None\<rparr>) speedOut1)"
    by (simp add: phase_eval car_def rnd_values
          newTracker_def speedFrame1_def speedOut1_def speedState1_def
        cong: prod.case_cong_weak let_weak_cong)
  then show ?thesis
    unfolding update_def
    by (simp add: flag_eval car_def rnd_values
          newTracker_def speedFrame1_def speedOut1_def speedState1_def
        cong: prod.case_cong_weak let_weak_cong)
qed

lemma speed_step2: "update speedState1 speedFrame2 1 = (speedState2, speedOut2)"
proof -
  have "createPhase speedState1 speedFrame2 1 =
    (tracks speedState2, nextId speedState2,
     map (\<lambda>d. d\<lparr>isSpeeding := None, isWrongWay := None\<rparr>) speedOut2)"
    by (simp add: phase_eval car_def rnd_values
          speedFrame2_def speedOut2_def speedState1_def speedState2_def
        cong: prod.case_cong_weak let_weak_cong)
  then show ?thesis
    unfolding update_def
    by (simp add: flag_eval car_def rnd_values
          speedFrame2_def speedOut2_def speedState1_def speedState2_def
        cong: prod.case_cong_weak let_weak_cong)
qed

lemma speedFast_step2: "update speedState1 speedFrame2Fast 1 = (speedFastState2, speedFastOut2)"
proof -
  have "createPhase speedState1 speedFrame2Fast 1 =
    (tracks speedFastState2, nextId speedFastState2,
     map (\<lambda>d. d\<lparr>isSpeeding := None, isWrongWay := None\<rparr>) speedFastOut2)"
    by (simp add: phase_eval car_def rnd_values
          speedFastOut2_def speedFastState2_def speedFrame2Fast_def speedState1_def
        cong: prod.case_cong_weak let_weak_cong)
  then show ?thesis
    unfolding update_def
    by (simp add: flag_eval car_def rnd_values
          speedFastOut2_def speedFastState2_def speedFrame2Fast_def speedState1_def
        cong: prod.case_cong_weak let_weak_cong)
qed

lemma flow_step1: "update newTracker flowFrame1 0 = (flowState1, flowOut1)"
proof -
  have "createPhase newTracker flowFrame1 0 =
    (tracks flowState1, nextId flowState1,
     map (\<lambda>d. d\<lparr>isSpeeding := None, isWrongWay := None\<rparr>) flowOut1)"
    by (simp add: phase_eval car_def rnd_values
          flowFrame1_def flowOut1_def flowState1_def newTracker_def
        cong: prod.case_cong_weak let_weak_cong)
  then show ?thesis
    unfolding update_def
    by (simp add: flag_eval car_def rnd_values
          flowFrame1_def flowOut1_def flowState1_def newTracker_def
        cong: prod.case_cong_weak let_weak_cong)
qed

lemma flow_step2: "update flowState1 flowFrame2 1 = (flowState2, flowOut2)"
proof -
  have "createPhase flowState1 flowFrame2 1 =
    (tracks flowState2, nextId flowState2,
     map (\<lambda>d. d\<lparr>isSpeeding := None, isWrongWay := None\<rparr>) flowOut2)"
    by (simp add: phase_eval car_def rnd_values
          flowFrame2_def flowOut2_def flowState1_def flowState2_def
        cong: prod.case_cong_weak let_weak_cong)
  then show ?thesis
    unfolding update_def
    by (simp add: flag_eval car_def rnd_values
          flowFrame2_def flowOut2_def flowState1_def flowState2_def
        cong: prod.case_cong_weak let_weak_cong)
qed

lemma lane_step1: "update newTracker laneFrame1 0 = (laneState1, laneOut1)"
proof -
  have "createPhase newTracker laneFrame1 0 =
    (tracks laneState1, nextId laneState1,
     map (\<lambda>d. d\<lparr>isSpeeding := None, isWrongWay := None\<rparr>) laneOut1)"
    by (simp add: phase_eval car_def rnd_values
          laneFrame1_def laneOut1_def laneState1_def newTracker_def
        cong: prod.case_cong_weak let_weak_cong)
  then show ?thesis
    unfolding update_def
    by (simp add: flag_eval car_def rnd_values
          laneFrame1_def laneOut1_def laneState1_def newTracker_def
        cong: prod.case_cong_weak let_weak_cong)
qed

lemma lane_step2: "update laneState1 laneFrame2 1 = (laneState2, laneOut2)"
proof -
  have "createPhase laneState1 laneFrame2 1 =
    (tracks laneState2, nextId laneState2,
     map (\<lambda>d. d\<lparr>isSpeeding := None, isWrongWay := None\<rparr>) laneOut2)"
    by (simp add: phase_eval car_def rnd_values
          laneFrame2_def laneOut2_def laneState1_def laneState2_def
        cong: prod.case_cong_weak let_weak_cong)
  then show ?thesis
    unfolding update_def
    by (simp add: flag_eval car_def rnd_values
          laneFrame2_def laneOut2_def laneState1_def laneState2_def
        cong: prod.case_cong_weak let_weak_cong)
qed

lemma lane_step3: "update laneState2 laneFrame2 2 = (laneState3, laneOut3)"
proof -
  have "createPhase laneState2 laneFrame2 2 =
    (tracks laneState3, nextId laneState3,
     map (\<lambda>d. d\<lparr>isSpeeding := None, isWrongWay := None\<rparr>) laneOut3)"
    by (simp add: phase_eval car_def rnd_values
          laneFrame2_def laneOut3_def laneState2_def laneState3_def
        cong: prod.case_cong_weak let_weak_cong)
  then show ?thesis
    unfolding update_def
    by (simp add: flag_eval car_def rnd_values
          laneFrame2_def laneOut3_def laneState2_def laneState3_def
        cong: prod.case_cong_weak let_weak_cong)
qed

lemma lane_step4: "update laneState3 laneFrame2 3 = (laneState4, laneOut4)"
proof -
  have "createPhase laneState3 laneFrame2 3 =
    (tracks laneState4, nextId laneState4,
     map (\<lambda>d. d\<lparr>isSpeeding := None, isWrongWay := None\<rparr>) laneOut4)"
    by (simp add: phase_eval car_def rnd_values
          laneFrame2_def laneOut4_def laneState3_def laneState4_def
        cong: prod.case_cong_weak let_weak_cong)
  then show ?thesis
    unfolding update_def
    by (simp add: flag_eval car_def rnd_values
          laneFrame2_def laneOut4_def laneState3_def laneState4_def
        cong: prod.case_cong_weak let_weak_cong)
qed

lemma lane_step5: "update laneState4 laneFrame2 4 = (laneState5, laneOut5)"
proof -
  have "createPhase laneState4 laneFrame2 4 =
    (tracks laneState5, nextId laneState5,
     map (\<lambda>d. d\<lparr>isSpeeding := None, isWrongWay := None\<rparr>) laneOut5)"
    by (simp add: phase_eval car_def rnd_values
          laneFrame2_def laneOut5_def laneState4_def laneState5_def
        cong: prod.case_cong_weak let_weak_cong)
  then show ?thesis
    unfolding update_def
    by (simp add: flag_eval car_def rnd_values
          laneFrame2_def laneOut5_def laneState4_def laneState5_def
        cong: prod.case_cong_weak let_weak_cong)
qed

lemma greedy_step1: "update newTracker greedyFrame1 0 = (greedyState1, greedyOut1)"
proof -
  have "createPhase newTracker greedyFrame1 0 =
    (tracks greedyState1, nextId greedyState1,
     map (\<lambda>d. d\<lparr>isSpeeding := None, isWrongWay := None\<rparr>) greedyOut1)"
    by (simp add: phase_eval car_def rnd_values
          greedyFrame1_def greedyOut1_def greedyState1_def newTracker_def
        cong: prod.case_cong_weak let_weak_cong)
  then show ?thesis
    unfolding update_def
    by (simp add: flag_eval car_def rnd_values
          greedyFrame1_def greedyOut1_def greedyState1_def newTracker_def
        cong: prod.case_cong_weak let_weak_cong)
qed

lemma greedy_step2: "update greedyState1 greedyFrame2 1 = (greedyState2, greedyOut2)"
proof -
  have "createPhase greedyState1 greedyFrame2 1 =
    (tracks greedyState2, nextId greedyState2,
     map (\<lambda>d. d\<lparr>isSpeeding := None, isWrongWay := None\<rparr>) greedyOut2)"
    by (simp add: phase_eval car_def rnd_values
          greedyFrame2_def greedyOut2_def greedyState1_def greedyState2_def
        cong: prod.case_cong_weak let_weak_cong)
  then show ?thesis
    unfolding update_def
    by (simp add: flag_eval car_def rnd_values
          greedyFrame2_def greedyOut2_def greedyState1_def greedyState2_def
        cong: prod.case_cong_weak let_weak_cong)
qed

lemma greedyFar_step2: "update greedyState1 greedyFrame2Far 1 = (greedyFarState2, greedyFarOut2)"
proof -
  have "createPhase greedyState1 greedyFrame2Far 1 =
    (tracks greedyFarState2, nextId greedyFarState2,
     map (\<lambda>d. d\<lparr>isSpeeding := None, isWrongWay := None\<rparr>) greedyFarOut2)"
    by (simp add: phase_eval car_def rnd_values
          greedyFarOut2_def greedyFarState2_def greedyFrame2Far_def greedyState1_def
        cong: prod.case_cong_weak let_weak_cong)
  then show ?thesis
    unfolding update_def
    by (simp add: flag_eval car_def rnd_values
          greedyFarOut2_def greedyFarState2_def greedyFrame2Far_def greedyState1_def
        cong: prod.case_cong_weak let_weak_cong)
qed
section \<open>Intersection over union\<close>


lemma inter_nonneg:
  fixes a b :: int
  shows "0 \<le> max 0 a * max 0 b"
  by simp












section \<open>The detections store\<close>

lemma scanDetection_candidate:
  "scanDetection tb ds valid um acc i =
     (case candidateIoU tb ds valid um i of
        None \<Rightarrow> acc
      | Some iou \<Rightarrow> if iouThreshold < iou \<and> snd acc < iou then (Some i, iou) else acc)"
  by (simp add: scanDetection_def candidateIoU_def split: option.splits)

lemma scan_fold_index:
  "fst (foldl (scanDetection tb ds valid um) acc xs) = Some j \<Longrightarrow>
     fst acc = Some j \<or> (j \<in> set xs \<and> candidateIoU tb ds valid um j \<noteq> None)"
proof (induction xs arbitrary: acc)
  case Nil
  then show ?case by simp
next
  case (Cons x xs)
  from Cons.IH [OF Cons.prems [simplified]]
  show ?case
    by (auto simp: scanDetection_candidate split: option.splits if_splits)
qed

lemma findBestMatch_SomeD:
  assumes "findBestMatch tb ds valid um = Some j"
  shows "j < length valid" and "j \<in> set um" and "box_2d (ds ! (valid ! j)) \<noteq> None"
proof -
  from assms scan_fold_index [of tb ds valid um "(None, 0)" "[0..<length valid]" j]
  have "j \<in> set [0..<length valid] \<and> candidateIoU tb ds valid um j \<noteq> None"
    by (simp add: findBestMatch_def)
  then show "j < length valid" and "j \<in> set um" and "box_2d (ds ! (valid ! j)) \<noteq> None"
    by (auto simp: candidateIoU_def split: if_splits option.splits)
qed

lemma changedWithin_refl: "reflp R \<Longrightarrow> changedWithin V R ds ds"
  by (simp add: changedWithin_def reflpD)

lemma changedWithin_trans:
  assumes "transp R"
    and "changedWithin V R ds ds'" and "changedWithin V R ds' ds''"
  shows "changedWithin V R ds ds''"
  unfolding changedWithin_def
proof (intro conjI allI impI)
  show "length ds'' = length ds"
    using assms(2,3) by (simp add: changedWithin_def)
  fix i assume i: "i < length ds"
  then have i': "i < length ds'"
    using assms(2) by (simp add: changedWithin_def)
  show "if i \<in> V then R (ds ! i) (ds'' ! i) else ds'' ! i = ds ! i"
  proof (cases "i \<in> V")
    case True
    with assms(2,3) i i' have "R (ds ! i) (ds' ! i)" "R (ds' ! i) (ds'' ! i)"
      by (auto simp: changedWithin_def)
    then show ?thesis using True transpD [OF assms(1)] by auto
  next
    case False
    with assms(2,3) i i' show ?thesis
      by (auto simp: changedWithin_def)
  qed
qed

lemma changedWithin_update:
  assumes "reflp R" and "k \<in> V" and "R (ds ! k) d'"
  shows "changedWithin V R ds (ds[k := d'])"
proof (cases "k < length ds")
  case True
  with assms show ?thesis
    by (auto simp: changedWithin_def nth_list_update reflpD)
next
  case False
  with assms(1) show ?thesis
    by (simp add: changedWithin_def reflpD)
qed

lemma annotate_rel:
  assumes "\<And>d i v l. R d (d\<lparr>trackId := i, estimatedSpeed := v, laneEvent := l\<rparr>)"
  shows "R d (annotate t d)"
  using assms by (simp add: annotate_def)

lemma matchTrack_changedWithin:
  assumes refl: "reflp R"
    and ann: "\<And>d i v l. R d (d\<lparr>trackId := i, estimatedSpeed := v, laneEvent := l\<rparr>)"
    and m: "matchTrack valid t (um, ds) = (t', um', ds')"
  shows "changedWithin (set valid) R ds ds'" and "set um' \<subseteq> set um"
proof -
  show "changedWithin (set valid) R ds ds'"
  proof (cases "findBestMatch (box t) ds valid um")
    case None
    with m refl show ?thesis
      by (simp add: matchTrack_def changedWithin_refl)
  next
    case (Some j)
    from findBestMatch_SomeD [OF Some] obtain b
      where j: "j < length valid" and b: "box_2d (ds ! (valid ! j)) = Some b"
      by auto
    from m Some b have "ds' = ds[valid ! j := annotate (matchUpdate t b) (ds ! (valid ! j))]"
      by (auto simp: matchTrack_def Let_def)
    moreover have "valid ! j \<in> set valid"
      using j by simp
    ultimately show ?thesis
      using refl annotate_rel [of R, OF ann] by (simp add: changedWithin_update)
  qed
  show "set um' \<subseteq> set um"
    using m by (auto simp: matchTrack_def Let_def split: option.splits)
qed

lemma matchTracks_changedWithin:
  assumes refl: "reflp R"
    and trans: "transp R"
    and ann: "\<And>d i v l. R d (d\<lparr>trackId := i, estimatedSpeed := v, laneEvent := l\<rparr>)"
  shows "matchTracks valid ts (um, ds) = (ts', um', ds') \<Longrightarrow>
           changedWithin (set valid) R ds ds' \<and> set um' \<subseteq> set um"
proof (induction ts arbitrary: um ds ts')
  case Nil
  then show ?case using refl by (simp add: changedWithin_refl)
next
  case (Cons t ts)
  obtain t1 um1 ds1 where s1: "matchTrack valid t (um, ds) = (t1, um1, ds1)"
    by (cases "matchTrack valid t (um, ds)") auto
  obtain ts2 where s2: "matchTracks valid ts (um1, ds1) = (ts2, um', ds')"
    using Cons.prems s1 by (auto split: prod.splits)
  from matchTrack_changedWithin [of R, OF refl ann s1] Cons.IH [OF s2]
  show ?case
    using changedWithin_trans [OF trans] by blast
qed

lemma createTrack_changedWithin:
  assumes refl: "reflp R"
    and ann: "\<And>d i v l. R d (d\<lparr>trackId := i, estimatedSpeed := v, laneEvent := l\<rparr>)"
    and j: "j < length valid"
    and c: "createTrack valid ts (cr, nid, ds) j = (cr', nid', ds')"
  shows "changedWithin (set valid) R ds ds'"
proof (cases "box_2d (ds ! (valid ! j))")
  case None
  with c refl show ?thesis
    by (simp add: createTrack_def Let_def changedWithin_refl)
next
  case (Some b)
  with c have "ds' = ds[valid ! j := (ds ! (valid ! j))\<lparr>trackId := Some nid,
      estimatedSpeed := Some 0, laneEvent := Some Stable\<rparr>]"
    by (simp add: createTrack_def Let_def)
  moreover have "valid ! j \<in> set valid"
    using j by simp
  ultimately show ?thesis
    using refl ann by (simp add: changedWithin_update)
qed

lemma createTracks_fold_changedWithin:
  assumes refl: "reflp R"
    and trans: "transp R"
    and ann: "\<And>d i v l. R d (d\<lparr>trackId := i, estimatedSpeed := v, laneEvent := l\<rparr>)"
  shows "\<forall>j\<in>set um. j < length valid \<Longrightarrow>
         foldl (createTrack valid ts) (cr, nid, ds) um = (cr', nid', ds') \<Longrightarrow>
           changedWithin (set valid) R ds ds'"
proof (induction um arbitrary: cr nid ds)
  case Nil
  then show ?case using refl by (simp add: changedWithin_refl)
next
  case (Cons j um)
  obtain cr1 nid1 ds1 where s1: "createTrack valid ts (cr, nid, ds) j = (cr1, nid1, ds1)"
    by (cases "createTrack valid ts (cr, nid, ds) j") auto
  have "changedWithin (set valid) R ds ds1"
    using createTrack_changedWithin [of R, OF refl ann _ s1] Cons.prems(1) by simp
  moreover have "changedWithin (set valid) R ds1 ds'"
    using Cons.IH [of cr1 nid1 ds1] Cons.prems s1 by simp
  ultimately show ?case
    using changedWithin_trans [OF trans] by blast
qed

lemma applyFlags_rel:
  assumes refl: "reflp R"
    and trans: "transp R"
    and spd: "\<And>d. R d (d\<lparr>isSpeeding := Some True\<rparr>)"
    and wrg: "\<And>d. R d (d\<lparr>isWrongWay := Some True\<rparr>)"
  shows "R d (applyFlags trks dd d)"
proof -
  have "R d (d\<lparr>isSpeeding := Some True, isWrongWay := Some True\<rparr>)"
    using transpD [OF trans spd [of d] wrg [of "d\<lparr>isSpeeding := Some True\<rparr>"]] by simp
  then show ?thesis
    using reflpD [OF refl] spd wrg by (simp add: applyFlags_def Let_def split: option.splits)
qed

lemma flagDetections_changedWithin:
  assumes refl: "reflp R"
    and trans: "transp R"
    and spd: "\<And>d. R d (d\<lparr>isSpeeding := Some True\<rparr>)"
    and wrg: "\<And>d. R d (d\<lparr>isWrongWay := Some True\<rparr>)"
  shows "set ks \<subseteq> V \<Longrightarrow>
         changedWithin V R ds (foldl (\<lambda>ds k. ds[k := applyFlags trks dd (ds ! k)]) ds ks)"
proof (induction ks arbitrary: ds)
  case Nil
  then show ?case using refl by (simp add: changedWithin_refl)
next
  case (Cons k ks)
  have "changedWithin V R ds (ds[k := applyFlags trks dd (ds ! k)])"
    using Cons.prems applyFlags_rel [of R, OF refl trans spd wrg] refl
    by (simp add: changedWithin_update)
  moreover have "changedWithin V R (ds[k := applyFlags trks dd (ds ! k)])
      (foldl (\<lambda>ds k. ds[k := applyFlags trks dd (ds ! k)]) (ds[k := applyFlags trks dd (ds ! k)]) ks)"
    using Cons.IH Cons.prems by simp
  ultimately show ?case
    using changedWithin_trans [OF trans] by (simp only: foldl_Cons)
qed

lemma filterValid_set: "set (filterValid ds) = {i. i < length ds \<and> isValid (ds ! i)}"
  by (auto simp: filterValid_def)

lemma filterValid_distinct: "distinct (filterValid ds)"
  by (simp add: filterValid_def)

lemma update_changedWithin:
  assumes refl: "reflp R"
    and trans: "transp R"
    and ann: "\<And>d i v l. R d (d\<lparr>trackId := i, estimatedSpeed := v, laneEvent := l\<rparr>)"
    and spd: "\<And>d. R d (d\<lparr>isSpeeding := Some True\<rparr>)"
    and wrg: "\<And>d. R d (d\<lparr>isWrongWay := Some True\<rparr>)"
  shows "changedWithin (set (filterValid ds)) R ds (snd (update s ds ts))"
proof -
  define valid where "valid = filterValid ds"
  obtain matched um ds1
    where m: "matchTracks valid (agedTracks s) ([0..<length valid], ds) = (matched, um, ds1)"
    by (cases "matchTracks valid (agedTracks s) ([0..<length valid], ds)") auto
  obtain created nid ds2
    where c: "foldl (createTrack valid ts) ([], nextId s, ds1) um = (created, nid, ds2)"
    by (cases "foldl (createTrack valid ts) ([], nextId s, ds1) um") auto
  define trks where "trks = matched @ created"
  have out: "snd (update s ds ts) =
      foldl (\<lambda>ds k. ds[k := applyFlags trks (dominantFlow trks) (ds ! k)]) ds2 valid"
    using m c
    by (simp add: update_def createPhase_def matchPhase_def createTracks_def flagDetections_def
        Let_def valid_def trks_def)
  from matchTracks_changedWithin [OF refl trans ann m]
  have 1: "changedWithin (set valid) R ds ds1" and um: "set um \<subseteq> {0..<length valid}"
    by auto
  have 2: "changedWithin (set valid) R ds1 ds2"
    using um by (intro createTracks_fold_changedWithin [OF refl trans ann _ c]) auto
  have 3: "changedWithin (set valid) R ds2 (snd (update s ds ts))"
    unfolding out by (rule flagDetections_changedWithin [OF refl trans spd wrg]) simp
  from 1 2 3 show ?thesis
    using changedWithin_trans [OF trans] unfolding valid_def by blast
qed

text \<open>
  Claim C6. \<open>update\<close> returns the sequence it was given: as many detections, in the
  same order, each with the fields \<open>object\<close>, \<open>count\<close>, \<open>confidence\<close>, \<open>type\<close> and
  \<open>box_2d\<close> it came with. A detection that is not a vehicle, or that has no box, comes
  back with every field as it was.
\<close>

theorem update_pass_through:
  assumes "update s detections timestamp = (s', out)"
  shows "length out = length detections \<and>
   (\<forall>i<length detections.
      object (out ! i) = object (detections ! i) \<and>
      count (out ! i) = count (detections ! i) \<and>
      confidence (out ! i) = confidence (detections ! i) \<and>
      type (out ! i) = type (detections ! i) \<and>
      box_2d (out ! i) = box_2d (detections ! i) \<and>
      (type (detections ! i) \<noteq> vehicle \<or> box_2d (detections ! i) = None \<longrightarrow>
         out ! i = detections ! i))"
proof -
  define R where "R = (\<lambda>(d :: DetectionItem) (d' :: DetectionItem). object d' = object d \<and>
     count d' = count d \<and> confidence d' = confidence d \<and> type d' = type d \<and>
     box_2d d' = box_2d d)"
  have "changedWithin (set (filterValid detections)) R detections
      (snd (update s detections timestamp))"
    by (rule update_changedWithin) (auto simp: R_def reflp_def transp_def)
  then show ?thesis
    using assms
    by (auto simp: changedWithin_def filterValid_set isValid_def R_def split: if_splits)
qed

theorem update_pass_through_witness:
  "length (snd (update newTracker [car (400, 400, 500, 500), walker] 0)) = 2 \<and>
   box_2d (snd (update newTracker [car (400, 400, 500, 500), walker] 0) ! 0) =
     Some (400, 400, 500, 500) \<and>
   snd (update newTracker [car (400, 400, 500, 500), walker] 0) ! 1 = walker"
  using update_pass_through [of newTracker "[car (400, 400, 500, 500), walker]" 0
      "fst (update newTracker [car (400, 400, 500, 500), walker] 0)"
      "snd (update newTracker [car (400, 400, 500, 500), walker] 0)"]
  by (simp add: walker_def car_def)
section \<open>Matching and creation\<close>

lemma matchUpdate_simps:
  "id_t (matchUpdate t b) = id_t t"
  "missingFrames (matchUpdate t b) = 0"
  "box (matchUpdate t b) = b"
  "class_t (matchUpdate t b) = class_t t"
  "createdAt (matchUpdate t b) = createdAt t"
  "centroid (matchUpdate t b) = getCentroid b"
  by (simp_all add: matchUpdate_def Let_def)

lemma annotatedBy_annotate: "annotatedBy t (annotate t d)"
  by (simp add: annotatedBy_def annotate_def)

lemma matchTrack_cases:
  assumes "matchTrack valid t (um, ds) = (t', um', ds')"
  obtains (miss) "findBestMatch (box t) ds valid um = None" "t' = t" "um' = um" "ds' = ds"
  | (hit) j b where "findBestMatch (box t) ds valid um = Some j"
      "j < length valid" "j \<in> set um" "box_2d (ds ! (valid ! j)) = Some b"
      "t' = matchUpdate t b" "um' = removeAll j um"
      "ds' = ds[valid ! j := annotate (matchUpdate t b) (ds ! (valid ! j))]"
proof (cases "findBestMatch (box t) ds valid um")
  case None
  with assms have "t' = t" "um' = um" "ds' = ds"
    by (simp_all add: matchTrack_def)
  with None show ?thesis
    by (rule miss)
next
  case (Some j)
  from findBestMatch_SomeD [OF Some] obtain b
    where j: "j < length valid" "j \<in> set um" and b: "box_2d (ds ! (valid ! j)) = Some b"
    by auto
  from assms Some b have "t' = matchUpdate t b" "um' = removeAll j um"
    "ds' = ds[valid ! j := annotate (matchUpdate t b) (ds ! (valid ! j))]"
    by (auto simp: matchTrack_def Let_def)
  with Some j b show ?thesis
    by (rule hit)
qed

lemma matchTracks_cons:
  assumes "matchTracks valid (t # ts) (um, ds) = (ts', um', ds')"
  obtains t1 um1 ds1 ts2 where "matchTrack valid t (um, ds) = (t1, um1, ds1)"
    "matchTracks valid ts (um1, ds1) = (ts2, um', ds')" "ts' = t1 # ts2"
  using assms by (auto split: prod.splits)

lemma matchTrack_length:
  "matchTrack valid t (um, ds) = (t', um', ds') \<Longrightarrow> length ds' = length ds"
  by (erule matchTrack_cases) auto

lemma matchTracks_length:
  "matchTracks valid ts (um, ds) = (ts', um', ds') \<Longrightarrow>
     length ds' = length ds \<and> length ts' = length ts"
proof (induction ts arbitrary: um ds ts')
  case Nil
  then show ?case by simp
next
  case (Cons t ts)
  from Cons.prems obtain t1 um1 ds1 ts2
    where 1: "matchTrack valid t (um, ds) = (t1, um1, ds1)"
      and 2: "matchTracks valid ts (um1, ds1) = (ts2, um', ds')" and 3: "ts' = t1 # ts2"
    by (rule matchTracks_cons)
  from matchTrack_length [OF 1] Cons.IH [OF 2] 3 show ?case
    by simp
qed

lemma matchTracks_ids:
  "matchTracks valid ts (um, ds) = (ts', um', ds') \<Longrightarrow> map id_t ts' = map id_t ts"
proof (induction ts arbitrary: um ds ts')
  case Nil
  then show ?case by simp
next
  case (Cons t ts)
  from Cons.prems obtain t1 um1 ds1 ts2
    where 1: "matchTrack valid t (um, ds) = (t1, um1, ds1)"
      and 2: "matchTracks valid ts (um1, ds1) = (ts2, um', ds')" and 3: "ts' = t1 # ts2"
    by (rule matchTracks_cons)
  from 1 have "id_t t1 = id_t t"
    by (rule matchTrack_cases) (simp_all add: matchUpdate_simps)
  with Cons.IH [OF 2] 3 show ?case
    by simp
qed

text \<open>Every track leaves the matching loop either as it entered it or updated by a match.\<close>

lemma matchTracks_shape:
  "matchTracks valid ts (um, ds) = (ts', um', ds') \<Longrightarrow>
     list_all2 (\<lambda>t t'. t' = t \<or> (\<exists>b. t' = matchUpdate t b)) ts ts'"
proof (induction ts arbitrary: um ds ts')
  case Nil
  then show ?case by simp
next
  case (Cons t ts)
  from Cons.prems obtain t1 um1 ds1 ts2
    where 1: "matchTrack valid t (um, ds) = (t1, um1, ds1)"
      and 2: "matchTracks valid ts (um1, ds1) = (ts2, um', ds')" and 3: "ts' = t1 # ts2"
    by (rule matchTracks_cons)
  from 1 have "t1 = t \<or> (\<exists>b. t1 = matchUpdate t b)"
    by (rule matchTrack_cases) auto
  with Cons.IH [OF 2] 3 show ?case
    by simp
qed

lemma matchTracks_assigned:
  assumes d: "distinct valid" and lt: "\<forall>k\<in>set valid. k < length ds"
  shows "matchTracks valid ts (um, ds) = (ts', um', ds') \<Longrightarrow> j < length valid \<Longrightarrow>
     (j \<in> set um' \<longrightarrow> j \<in> set um \<and> ds' ! (valid ! j) = ds ! (valid ! j)) \<and>
     (j \<in> set um \<and> j \<notin> set um' \<longrightarrow>
        (\<exists>t\<in>set ts'. missingFrames t = 0 \<and> annotatedBy t (ds' ! (valid ! j)))) \<and>
     (j \<notin> set um \<longrightarrow> ds' ! (valid ! j) = ds ! (valid ! j))"
  using lt
proof (induction ts arbitrary: um ds ts')
  case Nil
  then show ?case by simp
next
  case (Cons t ts)
  from Cons.prems(1) obtain t1 um1 ds1 ts2
    where 1: "matchTrack valid t (um, ds) = (t1, um1, ds1)"
      and 2: "matchTracks valid ts (um1, ds1) = (ts2, um', ds')" and 3: "ts' = t1 # ts2"
    by (rule matchTracks_cons)
  have len: "length ds1 = length ds"
    using 1 by (rule matchTrack_length)
  have vj: "valid ! j < length ds"
    using Cons.prems(2,3) by simp
  from Cons.IH [OF 2 Cons.prems(2)] Cons.prems(3) len
  have IH: "(j \<in> set um' \<longrightarrow> j \<in> set um1 \<and> ds' ! (valid ! j) = ds1 ! (valid ! j)) \<and>
     (j \<in> set um1 \<and> j \<notin> set um' \<longrightarrow>
        (\<exists>t\<in>set ts2. missingFrames t = 0 \<and> annotatedBy t (ds' ! (valid ! j)))) \<and>
     (j \<notin> set um1 \<longrightarrow> ds' ! (valid ! j) = ds1 ! (valid ! j))"
    by simp
  from 1 show ?case
  proof (cases rule: matchTrack_cases)
    case miss
    with IH 3 show ?thesis by auto
  next
    case (hit j0 b)
    have neq: "valid ! j0 \<noteq> valid ! j" if "j0 \<noteq> j"
      using that d hit(2) Cons.prems(2) by (simp add: nth_eq_iff_index_eq)
    have same: "ds1 ! (valid ! j) = ds ! (valid ! j)" if "j0 \<noteq> j"
      using neq [OF that] hit(7) by simp
    have new: "annotatedBy t1 (ds1 ! (valid ! j0)) \<and> missingFrames t1 = 0"
      using hit(5,7) vj Cons.prems(3) hit(2)
      by (simp add: annotatedBy_annotate matchUpdate_simps)
    show ?thesis
    proof (cases "j = j0")
      case True
      with IH hit new 3 show ?thesis by auto
    next
      case False
      with IH hit same 3 show ?thesis by auto
    qed
  qed
qed

lemma createTrack_cases:
  assumes "createTrack valid ts (cr, nid, ds) j = (cr', nid', ds')"
    and "box_2d (ds ! (valid ! j)) \<noteq> None"
  obtains t where "cr' = cr @ [t]" "nid' = nid + 1" "id_t t = nid" "freshTrack t"
    "box_2d (ds ! (valid ! j)) = Some (box t)" "createdAt t = ts"
    "ds' = ds[valid ! j := (ds ! (valid ! j))\<lparr>trackId := Some (id_t t),
        estimatedSpeed := Some (speed t), laneEvent := Some (laneStatus t)\<rparr>]"
proof -
  from assms(2) obtain b where b: "box_2d (ds ! (valid ! j)) = Some b"
    by auto
  define t where "t = \<lparr>id_t = nid, class_t = object (ds ! (valid ! j)), box = b,
     centroid = getCentroid b, history = [getCentroid b], missingFrames = 0, speed = 0,
     dy = 0, laneStatus = Stable, createdAt = ts\<rparr>"
  from assms(1) b have "cr' = cr @ [t]" "nid' = nid + 1"
    "ds' = ds[valid ! j := (ds ! (valid ! j))\<lparr>trackId := Some (id_t t),
        estimatedSpeed := Some (speed t), laneEvent := Some (laneStatus t)\<rparr>]"
    by (simp_all add: createTrack_def Let_def t_def)
  moreover have "id_t t = nid" "freshTrack t" "box_2d (ds ! (valid ! j)) = Some (box t)"
    "createdAt t = ts"
    using b by (simp_all add: t_def freshTrack_def)
  ultimately show ?thesis
    using that by blast
qed

lemma createTracks_fold:
  assumes d: "distinct valid"
  shows "\<forall>k\<in>set valid. k < length ds \<and> box_2d (ds ! k) \<noteq> None \<Longrightarrow>
     \<forall>j\<in>set um. j < length valid \<Longrightarrow>
     foldl (createTrack valid ts) (cr, nid, ds) um = (cr', nid', ds') \<Longrightarrow>
     nid' = nid + length um \<and> length ds' = length ds \<and>
     (\<exists>new. cr' = cr @ new \<and> map id_t new = [nid..<nid + length um] \<and>
        (\<forall>t\<in>set new. freshTrack t) \<and>
        (\<forall>j<length valid.
           (j \<in> set um \<longrightarrow> (\<exists>t\<in>set new. annotatedBy t (ds' ! (valid ! j)))) \<and>
           (j \<notin> set um \<longrightarrow> ds' ! (valid ! j) = ds ! (valid ! j))))"
proof (induction um arbitrary: cr nid ds)
  case Nil
  then show ?case by simp
next
  case (Cons j0 um)
  have j0: "j0 < length valid" and v0: "valid ! j0 < length ds"
    and b0: "box_2d (ds ! (valid ! j0)) \<noteq> None"
    using Cons.prems(1,2) by auto
  obtain cr1 nid1 ds1 where s1: "createTrack valid ts (cr, nid, ds) j0 = (cr1, nid1, ds1)"
    by (cases "createTrack valid ts (cr, nid, ds) j0") auto
  from s1 b0 obtain t where t: "cr1 = cr @ [t]" "nid1 = nid + 1" "id_t t = nid" "freshTrack t"
    and ds1: "ds1 = ds[valid ! j0 := (ds ! (valid ! j0))\<lparr>trackId := Some (id_t t),
        estimatedSpeed := Some (speed t), laneEvent := Some (laneStatus t)\<rparr>]"
    by (rule createTrack_cases)
  have ok1: "\<forall>k\<in>set valid. k < length ds1 \<and> box_2d (ds1 ! k) \<noteq> None"
  proof (intro ballI conjI)
    fix k assume "k \<in> set valid"
    with Cons.prems(1) have k: "k < length ds" "box_2d (ds ! k) \<noteq> None"
      by auto
    show "k < length ds1"
      using k by (simp add: ds1)
    show "box_2d (ds1 ! k) \<noteq> None"
      using k by (cases "k = valid ! j0") (simp_all add: ds1 del: not_None_eq)
  qed
  have rest: "foldl (createTrack valid ts) (cr1, nid1, ds1) um = (cr', nid', ds')"
    using Cons.prems(3) s1 by simp
  from Cons.IH [OF ok1 _ rest] Cons.prems(2)
  obtain new where new: "nid' = nid1 + length um" "length ds' = length ds1"
    "cr' = cr1 @ new" "map id_t new = [nid1..<nid1 + length um]" "\<forall>t\<in>set new. freshTrack t"
    and pos: "\<forall>j<length valid.
           (j \<in> set um \<longrightarrow> (\<exists>t\<in>set new. annotatedBy t (ds' ! (valid ! j)))) \<and>
           (j \<notin> set um \<longrightarrow> ds' ! (valid ! j) = ds1 ! (valid ! j))"
    by auto
  have here: "annotatedBy t (ds1 ! (valid ! j0))"
    using v0 by (simp add: ds1 annotatedBy_def)
  have other: "ds1 ! (valid ! j) = ds ! (valid ! j)" if "j < length valid" "j \<noteq> j0" for j
    using that d j0 by (simp add: ds1 nth_eq_iff_index_eq)
  have "[nid..<nid + length (j0 # um)] = nid # [nid1..<nid1 + length um]"
    using t(2) by (simp add: upt_conv_Cons del: upt_Suc)
  then have ids: "map id_t (t # new) = [nid..<nid + length (j0 # um)]"
    using t(3) new(4) by simp
  have "\<forall>j<length valid.
      (j \<in> set (j0 # um) \<longrightarrow> (\<exists>t'\<in>set (t # new). annotatedBy t' (ds' ! (valid ! j)))) \<and>
      (j \<notin> set (j0 # um) \<longrightarrow> ds' ! (valid ! j) = ds ! (valid ! j))"
  proof (intro allI impI)
    fix j assume j: "j < length valid"
    show "(j \<in> set (j0 # um) \<longrightarrow> (\<exists>t'\<in>set (t # new). annotatedBy t' (ds' ! (valid ! j)))) \<and>
      (j \<notin> set (j0 # um) \<longrightarrow> ds' ! (valid ! j) = ds ! (valid ! j))"
    proof (cases "j \<in> set um")
      case True
      with pos j show ?thesis by auto
    next
      case False
      with pos j have eq: "ds' ! (valid ! j) = ds1 ! (valid ! j)" by simp
      show ?thesis
      proof (cases "j = j0")
        case True
        with eq here show ?thesis by simp
      next
        case neq: False
        with eq other [OF j neq] False show ?thesis by simp
      qed
    qed
  qed
  then show ?case
    using t new ids by (intro conjI exI [of _ "t # new"]) (simp_all add: ds1 del: upt_Suc)
qed

lemma flagDetections_nth:
  "distinct ks \<Longrightarrow> \<forall>k\<in>set ks. k < length ds \<Longrightarrow>
     length (flagDetections trks dd ks ds) = length ds \<and>
     (\<forall>k<length ds. flagDetections trks dd ks ds ! k =
        (if k \<in> set ks then applyFlags trks dd (ds ! k) else ds ! k))"
proof (induction ks arbitrary: ds)
  case Nil
  then show ?case by (simp add: flagDetections_def)
next
  case (Cons k0 ks)
  define ds1 where "ds1 = ds[k0 := applyFlags trks dd (ds ! k0)]"
  have step: "flagDetections trks dd (k0 # ks) ds = flagDetections trks dd ks ds1"
    by (simp add: flagDetections_def ds1_def)
  have "distinct ks" "\<forall>k\<in>set ks. k < length ds1"
    using Cons.prems by (simp_all add: ds1_def)
  from Cons.IH [OF this]
  have IH: "length (flagDetections trks dd ks ds1) = length ds1"
    "\<forall>k<length ds1. flagDetections trks dd ks ds1 ! k =
        (if k \<in> set ks then applyFlags trks dd (ds1 ! k) else ds1 ! k)"
    by auto
  have "k0 \<notin> set ks" "k0 < length ds"
    using Cons.prems by auto
  then show ?case
    unfolding step using IH by (auto simp: ds1_def nth_list_update)
qed

lemma filterValid_ok:
  "\<forall>k\<in>set (filterValid ds). k < length ds \<and> box_2d (ds ! k) \<noteq> None"
  by (simp add: filterValid_set isValid_def)

lemma box_preserved:
  assumes "changedWithin V (\<lambda>d d'. box_2d d' = box_2d d) ds ds'"
    and "\<forall>k\<in>set valid. k < length ds \<and> box_2d (ds ! k) \<noteq> None"
  shows "\<forall>k\<in>set valid. k < length ds' \<and> box_2d (ds' ! k) \<noteq> None"
proof
  fix k assume "k \<in> set valid"
  with assms(2) have k: "k < length ds" "box_2d (ds ! k) \<noteq> None"
    by auto
  from assms(1) k(1) have "length ds' = length ds" "box_2d (ds' ! k) = box_2d (ds ! k)"
    by (auto simp: changedWithin_def split: if_splits)
  with k show "k < length ds' \<and> box_2d (ds' ! k) \<noteq> None"
    by simp
qed

lemma agedTracks_ids: "map id_t (agedTracks s) = map id_t (tracks s)"
  by (simp add: agedTracks_def comp_def)

text \<open>The phases of one \<open>update\<close> call and what each of them establishes.\<close>

lemma update_phases:
  fixes s ds ts
  defines "valid \<equiv> filterValid ds"
  obtains matched um ds1 new ds2 where
    "matchTracks valid (agedTracks s) ([0..<length valid], ds) = (matched, um, ds1)"
    "foldl (createTrack valid ts) ([], nextId s, ds1) um = (new, nextId s + length um, ds2)"
    "update s ds ts =
       (\<lparr>tracks = filter (\<lambda>t. missingFrames t \<le> maxMissingFrames) (matched @ new),
         nextId = nextId s + length um\<rparr>,
        flagDetections (matched @ new) (dominantFlow (matched @ new)) valid ds2)"
    "map id_t matched = map id_t (tracks s)"
    "map id_t new = [nextId s..<nextId s + length um]"
    "\<forall>t\<in>set new. freshTrack t"
    "length ds2 = length ds"
    "\<forall>j<length valid. \<exists>t\<in>set (matched @ new).
        missingFrames t = 0 \<and> annotatedBy t (ds2 ! (valid ! j))"
    "\<forall>k<length ds. isSpeeding (ds2 ! k) = isSpeeding (ds ! k) \<and>
        isWrongWay (ds2 ! k) = isWrongWay (ds ! k)"
proof -
  obtain matched um ds1
    where m: "matchTracks valid (agedTracks s) ([0..<length valid], ds) = (matched, um, ds1)"
    by (cases "matchTracks valid (agedTracks s) ([0..<length valid], ds)") auto
  obtain new nid ds2
    where c: "foldl (createTrack valid ts) ([], nextId s, ds1) um = (new, nid, ds2)"
    by (cases "foldl (createTrack valid ts) ([], nextId s, ds1) um") auto
  have d: "distinct valid"
    by (simp add: valid_def filterValid_distinct)
  have ok: "\<forall>k\<in>set valid. k < length ds \<and> box_2d (ds ! k) \<noteq> None"
    by (simp add: valid_def filterValid_ok)
  have "changedWithin (set valid) (\<lambda>d d'. box_2d d' = box_2d d) ds ds1 \<and>
      set um \<subseteq> set [0..<length valid]"
    by (rule matchTracks_changedWithin [OF _ _ _ m]) (simp_all add: reflp_def transp_def)
  then have ok1: "\<forall>k\<in>set valid. k < length ds1 \<and> box_2d (ds1 ! k) \<noteq> None"
    and um: "\<forall>j\<in>set um. j < length valid"
    using box_preserved [OF _ ok] by auto
  from createTracks_fold [OF d ok1 um c]
  have nid: "nid = nextId s + length um" and len2: "length ds2 = length ds1"
    and ids: "map id_t new = [nextId s..<nextId s + length um]"
    and fresh: "\<forall>t\<in>set new. freshTrack t"
    and cpos: "\<forall>j<length valid.
           (j \<in> set um \<longrightarrow> (\<exists>t\<in>set new. annotatedBy t (ds2 ! (valid ! j)))) \<and>
           (j \<notin> set um \<longrightarrow> ds2 ! (valid ! j) = ds1 ! (valid ! j))"
    by auto
  have len1: "length ds1 = length ds"
    using matchTracks_length [OF m] by simp
  have upd: "update s ds ts =
       (\<lparr>tracks = filter (\<lambda>t. missingFrames t \<le> maxMissingFrames) (matched @ new),
         nextId = nextId s + length um\<rparr>,
        flagDetections (matched @ new) (dominantFlow (matched @ new)) valid ds2)"
    using m c nid
    by (simp add: update_def createPhase_def matchPhase_def createTracks_def Let_def valid_def)
  have assigned: "\<forall>j<length valid. \<exists>t\<in>set (matched @ new).
        missingFrames t = 0 \<and> annotatedBy t (ds2 ! (valid ! j))"
  proof (intro allI impI)
    fix j assume j: "j < length valid"
    from matchTracks_assigned [OF d _ m j] ok
    have mpos: "j \<notin> set um \<longrightarrow>
        (\<exists>t\<in>set matched. missingFrames t = 0 \<and> annotatedBy t (ds1 ! (valid ! j)))"
      using j by auto
    show "\<exists>t\<in>set (matched @ new). missingFrames t = 0 \<and> annotatedBy t (ds2 ! (valid ! j))"
    proof (cases "j \<in> set um")
      case True
      with cpos j fresh show ?thesis
        by (auto simp: freshTrack_def)
    next
      case False
      with cpos j mpos show ?thesis
        by auto
    qed
  qed
  define F where "F = (\<lambda>(d :: DetectionItem) (d' :: DetectionItem).
     isSpeeding d' = isSpeeding d \<and> isWrongWay d' = isWrongWay d)"
  have F: "reflp F" "transp F"
    "\<And>d i v l. F d (d\<lparr>trackId := i, estimatedSpeed := v, laneEvent := l\<rparr>)"
    by (simp_all add: F_def reflp_def transp_def)
  have "changedWithin (set valid) F ds ds1"
    using matchTracks_changedWithin [OF F m] by simp
  moreover have "changedWithin (set valid) F ds1 ds2"
    using um by (intro createTracks_fold_changedWithin [OF F _ c]) auto
  ultimately have "changedWithin (set valid) F ds ds2"
    by (rule changedWithin_trans [OF F(2)])
  then have flags: "\<forall>k<length ds. isSpeeding (ds2 ! k) = isSpeeding (ds ! k) \<and>
        isWrongWay (ds2 ! k) = isWrongWay (ds ! k)"
    by (auto simp: changedWithin_def F_def split: if_splits)
  from m c [unfolded nid] upd matchTracks_ids [OF m] ids fresh len2 [unfolded len1] assigned flags
  show ?thesis
    using that by (simp add: agedTracks_ids)
qed

lemma trackerInv_newTracker: "trackerInv newTracker"
  by (simp add: trackerInv_def newTracker_def)

lemma sorted_ids_append:
  assumes "sorted_wrt (<) (xs :: nat list)" and "\<forall>x\<in>set xs. x < n"
  shows "sorted_wrt (<) (xs @ [n..<n + k])"
  using assms by (auto simp: sorted_wrt_append)

lemma update_inv:
  assumes "trackerInv s"
  shows "trackerInv (fst (update s ds ts))"
proof (rule update_phases [where s = s and ds = ds and ts = ts])
  fix matched um new ds2
  assume upd: "update s ds ts =
       (\<lparr>tracks = filter (\<lambda>t. missingFrames t \<le> maxMissingFrames) (matched @ new),
         nextId = nextId s + length um\<rparr>,
        flagDetections (matched @ new) (dominantFlow (matched @ new)) (filterValid ds) ds2)"
    and idm: "map id_t matched = map id_t (tracks s)"
    and idn: "map id_t new = [nextId s..<nextId s + length um]"
  from assms have n: "0 < nextId s" and srt: "sorted_wrt (<) (map id_t (tracks s))"
    and bnd: "\<forall>x\<in>set (map id_t (tracks s)). 0 < x \<and> x < nextId s"
    by (auto simp: trackerInv_def list_all_iff)
  have all: "map id_t (matched @ new) = map id_t (tracks s) @ [nextId s..<nextId s + length um]"
    using idm idn by simp
  have "sorted_wrt (<) (map id_t (matched @ new))"
    unfolding all using srt bnd by (intro sorted_ids_append) auto
  then have "sorted_wrt (\<lambda>a b. id_t a < id_t b) (matched @ new)"
    by (simp only: sorted_wrt_map)
  then have "sorted_wrt (\<lambda>a b. id_t a < id_t b)
      (filter (\<lambda>t. missingFrames t \<le> maxMissingFrames) (matched @ new))"
    by (rule sorted_wrt_filter)
  moreover have tr: "tracks (fst (update s ds ts)) =
      filter (\<lambda>t. missingFrames t \<le> maxMissingFrames) (matched @ new)"
    by (simp add: upd)
  ultimately have 1: "sorted_wrt (<) (map id_t (tracks (fst (update s ds ts))))"
    by (simp only: sorted_wrt_map)
  have "\<forall>x\<in>set (map id_t (matched @ new)). 0 < x \<and> x < nextId s + length um"
    unfolding all using bnd n by auto
  then have 2: "list_all (\<lambda>t. 0 < id_t t \<and> id_t t < nextId (fst (update s ds ts)))
      (tracks (fst (update s ds ts)))"
    by (auto simp: upd list_all_iff)
  from 1 2 n show ?thesis
    unfolding trackerInv_def by (simp add: upd)
qed

lemma updates_inv: "trackerInv s \<Longrightarrow> trackerInv (updates s frames)"
  by (induction frames arbitrary: s) (simp_all add: update_inv)

lemma find_by_id:
  "distinct (map f xs) \<Longrightarrow> t \<in> set xs \<Longrightarrow> find (\<lambda>x. f x = f t) xs = Some t"
  by (induction xs) auto

lemma dominantFlow_filter:
  "dominantFlow (filter (\<lambda>t. missingFrames t \<le> maxMissingFrames) trks) = dominantFlow trks"
proof -
  have "filter (\<lambda>t. missingFrames t = 0 \<and> rnd (1 / 1000) < \<bar>dy t\<bar>)
          (filter (\<lambda>t. missingFrames t \<le> maxMissingFrames) trks) =
        filter (\<lambda>t. missingFrames t = 0 \<and> rnd (1 / 1000) < \<bar>dy t\<bar>) trks"
    by (simp add: maxMissingFrames_def) (metis (mono_tags, lifting) le0)
  then show ?thesis
    by (simp add: dominantFlow_def)
qed

lemma update_valid_detection:
  assumes inv: "trackerInv s" and i: "i < length ds" and v: "isValid (ds ! i)"
  shows "\<exists>t\<in>set (tracks (fst (update s ds ts))).
     missingFrames t = 0 \<and> annotatedBy t (snd (update s ds ts) ! i) \<and>
     isSpeeding (snd (update s ds ts) ! i) =
       (if SPEED_LIMIT < speed t then Some True else isSpeeding (ds ! i)) \<and>
     isWrongWay (snd (update s ds ts) ! i) =
       (if wrongWay (dominantFlow (tracks (fst (update s ds ts)))) (dy t) then Some True
        else isWrongWay (ds ! i))"
proof (rule update_phases [where s = s and ds = ds and ts = ts])
  fix matched um new ds2
  define valid where "valid = filterValid ds"
  assume "update s ds ts =
       (\<lparr>tracks = filter (\<lambda>t. missingFrames t \<le> maxMissingFrames) (matched @ new),
         nextId = nextId s + length um\<rparr>,
        flagDetections (matched @ new) (dominantFlow (matched @ new)) (filterValid ds) ds2)"
    and idm: "map id_t matched = map id_t (tracks s)"
    and idn: "map id_t new = [nextId s..<nextId s + length um]"
    and len2: "length ds2 = length ds"
    and "\<forall>j<length (filterValid ds). \<exists>t\<in>set (matched @ new).
        missingFrames t = 0 \<and> annotatedBy t (ds2 ! (filterValid ds ! j))"
    and flg: "\<forall>k<length ds. isSpeeding (ds2 ! k) = isSpeeding (ds ! k) \<and>
        isWrongWay (ds2 ! k) = isWrongWay (ds ! k)"
  then have upd: "update s ds ts =
       (\<lparr>tracks = filter (\<lambda>t. missingFrames t \<le> maxMissingFrames) (matched @ new),
         nextId = nextId s + length um\<rparr>,
        flagDetections (matched @ new) (dominantFlow (matched @ new)) valid ds2)"
    and asg: "\<forall>j<length valid. \<exists>t\<in>set (matched @ new).
        missingFrames t = 0 \<and> annotatedBy t (ds2 ! (valid ! j))"
    by (simp_all add: valid_def)
  define trks where "trks = matched @ new"
  define dd where "dd = dominantFlow trks"
  from inv have n: "0 < nextId s" and srt: "sorted_wrt (<) (map id_t (tracks s))"
    and bnd: "\<forall>x\<in>set (map id_t (tracks s)). 0 < x \<and> x < nextId s"
    by (auto simp: trackerInv_def list_all_iff)
  have all: "map id_t trks = map id_t (tracks s) @ [nextId s..<nextId s + length um]"
    using idm idn by (simp add: trks_def)
  have "sorted_wrt (<) (map id_t trks)"
    unfolding all using srt bnd by (intro sorted_ids_append) auto
  then have dist: "distinct (map id_t trks)"
    by (simp add: strict_sorted_iff)
  have pos: "\<forall>x\<in>set (map id_t trks). 0 < x"
    unfolding all using bnd n by auto
  have "i \<in> set valid"
    using i v by (simp add: valid_def filterValid_set)
  then obtain j where j: "j < length valid" "valid ! j = i"
    by (auto simp: in_set_conv_nth)
  with asg obtain t where t: "t \<in> set trks" "missingFrames t = 0" "annotatedBy t (ds2 ! i)"
    by (auto simp: trks_def)
  have out: "snd (update s ds ts) ! i = applyFlags trks dd (ds2 ! i)"
    using flagDetections_nth [of valid ds2 trks dd] i \<open>i \<in> set valid\<close> len2
    by (simp add: upd valid_def filterValid_distinct filterValid_set trks_def dd_def)
  have fnd: "find (\<lambda>x. id_t x = id_t t) trks = Some t"
    using dist t(1) by (rule find_by_id)
  have idpos: "0 < id_t t"
    using pos t(1) by auto
  have app: "applyFlags trks dd (ds2 ! i) =
     (let det1 = (if SPEED_LIMIT < speed t then (ds2 ! i)\<lparr>isSpeeding := Some True\<rparr>
                  else ds2 ! i)
      in if wrongWay dd (dy t) then det1\<lparr>isWrongWay := Some True\<rparr> else det1)"
    using t(3) fnd idpos by (simp add: applyFlags_def annotatedBy_def)
  have tr: "tracks (fst (update s ds ts)) = filter (\<lambda>t. missingFrames t \<le> maxMissingFrames) trks"
    by (simp add: upd trks_def)
  have dd: "dominantFlow (tracks (fst (update s ds ts))) = dd"
    by (simp add: tr dominantFlow_filter dd_def)
  have "t \<in> set (tracks (fst (update s ds ts)))"
    using t(1,2) by (simp add: tr)
  moreover have "annotatedBy t (snd (update s ds ts) ! i)"
    using t(3) by (simp add: out app annotatedBy_def Let_def)
  moreover have "isSpeeding (snd (update s ds ts) ! i) =
       (if SPEED_LIMIT < speed t then Some True else isSpeeding (ds ! i))"
    using flg i by (simp add: out app Let_def)
  moreover have "isWrongWay (snd (update s ds ts) ! i) =
       (if wrongWay dd (dy t) then Some True else isWrongWay (ds ! i))"
    using flg i by (simp add: out app Let_def)
  ultimately show ?thesis
    using t(2) dd by auto
qed
section \<open>Violation flags\<close>

text \<open>
  Claim C10. \<open>update\<close> only ever writes \<open>true\<close> to \<open>isSpeeding\<close> and
  \<open>isWrongWay\<close>: on return each flag holds the value it came with or \<open>true\<close>, so a
  flag that was \<open>true\<close> on entry is \<open>true\<close> on return. A tracked detection whose track
  does not exceed the speed limit keeps the \<open>isSpeeding\<close> it came with, and one whose
  track does not run against the dominant flow keeps its \<open>isWrongWay\<close>. The track of a
  detection is found by its identifier, so the last part is stated for the states of a
  tracker, in which identifiers are unique (\<open>trackerInv\<close>).
\<close>

theorem update_flags_only_set:
  assumes "update s detections timestamp = (s', out)" and "i < length detections"
  shows "(isSpeeding (out ! i) = isSpeeding (detections ! i) \<or> isSpeeding (out ! i) = Some True) \<and>
     (isWrongWay (out ! i) = isWrongWay (detections ! i) \<or> isWrongWay (out ! i) = Some True) \<and>
     (isSpeeding (detections ! i) = Some True \<longrightarrow> isSpeeding (out ! i) = Some True) \<and>
     (isWrongWay (detections ! i) = Some True \<longrightarrow> isWrongWay (out ! i) = Some True) \<and>
     (trackerInv s \<and> isValid (detections ! i) \<longrightarrow>
        (\<exists>t\<in>set (tracks s'). trackId (out ! i) = Some (id_t t) \<and>
           (\<not> SPEED_LIMIT < speed t \<longrightarrow> isSpeeding (out ! i) = isSpeeding (detections ! i)) \<and>
           (\<not> wrongWay (dominantFlow (tracks s')) (dy t) \<longrightarrow>
              isWrongWay (out ! i) = isWrongWay (detections ! i))))"
proof -
  define R where "R = (\<lambda>(d :: DetectionItem) (d' :: DetectionItem).
      (isSpeeding d' = isSpeeding d \<or> isSpeeding d' = Some True) \<and>
      (isWrongWay d' = isWrongWay d \<or> isWrongWay d' = Some True))"
  have "changedWithin (set (filterValid detections)) R detections
      (snd (update s detections timestamp))"
    by (rule update_changedWithin) (auto simp: R_def reflp_def transp_def)
  then have R: "R (detections ! i) (out ! i)"
    using assms by (auto simp: changedWithin_def R_def split: if_splits)
  have "\<exists>t\<in>set (tracks s'). trackId (out ! i) = Some (id_t t) \<and>
           (\<not> SPEED_LIMIT < speed t \<longrightarrow> isSpeeding (out ! i) = isSpeeding (detections ! i)) \<and>
           (\<not> wrongWay (dominantFlow (tracks s')) (dy t) \<longrightarrow>
              isWrongWay (out ! i) = isWrongWay (detections ! i))"
    if "trackerInv s" "isValid (detections ! i)"
    using update_valid_detection [OF that(1) assms(2) that(2), of timestamp] assms(1)
    by (auto simp: annotatedBy_def)
  with R show ?thesis
    by (auto simp: R_def)
qed

theorem update_flags_only_set_witness:
  "isSpeeding ((car (400, 400, 500, 500))\<lparr>isSpeeding := Some True\<rparr>) = Some True \<and>
   trackerInv newTracker \<and>
   isValid ((car (400, 400, 500, 500))\<lparr>isSpeeding := Some True\<rparr>) \<and>
   isSpeeding
     (snd (update newTracker [(car (400, 400, 500, 500))\<lparr>isSpeeding := Some True\<rparr>] 0) ! 0) =
     Some True \<and>
   (\<exists>t\<in>set (tracks (fst (update newTracker
          [(car (400, 400, 500, 500))\<lparr>isSpeeding := Some True\<rparr>] 0))).
      trackId
        (snd (update newTracker [(car (400, 400, 500, 500))\<lparr>isSpeeding := Some True\<rparr>] 0) ! 0) =
        Some (id_t t))"
proof -
  let ?d = "(car (400, 400, 500, 500))\<lparr>isSpeeding := Some True\<rparr>"
  have v: "isValid ?d" and f: "isSpeeding ?d = Some True"
    by (simp_all add: isValid_def car_def)
  have u: "update newTracker [?d] 0 =
      (fst (update newTracker [?d] 0), snd (update newTracker [?d] 0))"
    by simp
  from update_flags_only_set [OF u, of 0] v f trackerInv_newTracker show ?thesis
    by auto
qed

lemma foldl_map_dy:
  "foldl (\<lambda>sum t. js_add sum (dy t)) a trks = foldl js_add a (map dy trks)"
  by (induction trks arbitrary: a) simp_all

lemma dominantFlow_mean:
  "dominantFlow trks =
     (let moving = filter (\<lambda>t. missingFrames t = 0 \<and> rnd (1 / 1000) < \<bar>dy t\<bar>) trks
      in if moving = [] then 0 else binary64Mean (map dy moving))"
  by (simp add: dominantFlow_def binary64Mean_def Let_def foldl_map_dy)

text \<open>
  Claim C4. In every \<open>update\<close> call the dominant flow is the mean of the vertical
  velocities \<open>dy\<close> of the tracks with \<open>missingFrames = 0\<close> and \<open>\<bar>dy\<bar> > 0.001\<close>, and 0 when
  there is none; the mean is the one binary64 arithmetic computes, the sum from left to
  right divided by the count (\<open>binary64Mean\<close>). These tracks survive the cleanup, so the
  flow is that of the tracks of the state returned. The call sets \<open>isWrongWay\<close> of a
  tracked detection to \<open>true\<close> exactly when \<open>\<bar>dominantFlow\<bar> > 0.005\<close>, \<open>\<bar>dy\<bar> > 0.005\<close> for
  its track, and the two signs differ; otherwise the field keeps the value it came with.
  Example: six cars, five moving down by 20 units (\<open>dy\<close> about 0.02) and the sixth moving
  up by 20 units; only the sixth is flagged.
\<close>

theorem wrong_way_detection:
  "(trackerInv s \<and> update s detections timestamp = (s', out) \<and> i < length detections \<and>
      isValid (detections ! i) \<longrightarrow>
      (\<exists>t\<in>set (tracks s'). trackId (out ! i) = Some (id_t t) \<and>
         isWrongWay (out ! i) =
           (if rnd (5 / 1000) < \<bar>dominantFlow (tracks s')\<bar> \<and> rnd (5 / 1000) < \<bar>dy t\<bar> \<and>
               sgn (dominantFlow (tracks s')) \<noteq> sgn (dy t)
            then Some True else isWrongWay (detections ! i)))) \<and>
   dominantFlow trks =
     (if filter (\<lambda>t. missingFrames t = 0 \<and> rnd (1 / 1000) < \<bar>dy t\<bar>) trks = [] then 0
      else binary64Mean
        (map dy (filter (\<lambda>t. missingFrames t = 0 \<and> rnd (1 / 1000) < \<bar>dy t\<bar>) trks))) \<and>
   update newTracker flowFrame1 0 = (flowState1, flowOut1) \<and>
   update flowState1 flowFrame2 1 = (flowState2, flowOut2) \<and>
   map dy (tracks flowState2) =
     [js_sub (rnd (47 / 100)) (rnd (9 / 20)), js_sub (rnd (47 / 100)) (rnd (9 / 20)),
      js_sub (rnd (47 / 100)) (rnd (9 / 20)), js_sub (rnd (47 / 100)) (rnd (9 / 20)),
      js_sub (rnd (47 / 100)) (rnd (9 / 20)), js_sub (rnd (43 / 100)) (rnd (9 / 20))] \<and>
   rnd (5 / 1000) < dominantFlow (tracks flowState2) \<and>
   map isWrongWay flowOut2 = [None, None, None, None, None, Some True]"
proof (intro conjI impI)
  assume a: "trackerInv s \<and> update s detections timestamp = (s', out) \<and>
      i < length detections \<and> isValid (detections ! i)"
  then have s': "s' = fst (update s detections timestamp)"
    and out: "out = snd (update s detections timestamp)"
    by simp_all
  from a update_valid_detection [of s i detections timestamp]
  show "\<exists>t\<in>set (tracks s'). trackId (out ! i) = Some (id_t t) \<and>
         isWrongWay (out ! i) =
           (if rnd (5 / 1000) < \<bar>dominantFlow (tracks s')\<bar> \<and> rnd (5 / 1000) < \<bar>dy t\<bar> \<and>
               sgn (dominantFlow (tracks s')) \<noteq> sgn (dy t)
            then Some True else isWrongWay (detections ! i))"
    unfolding s' out by (auto simp: annotatedBy_def wrongWay_def)
next
  show "dominantFlow trks =
     (if filter (\<lambda>t. missingFrames t = 0 \<and> rnd (1 / 1000) < \<bar>dy t\<bar>) trks = [] then 0
      else binary64Mean
        (map dy (filter (\<lambda>t. missingFrames t = 0 \<and> rnd (1 / 1000) < \<bar>dy t\<bar>) trks)))"
    by (simp add: dominantFlow_mean Let_def)
next
  show "update newTracker flowFrame1 0 = (flowState1, flowOut1)"
    by (rule flow_step1)
next
  show "update flowState1 flowFrame2 1 = (flowState2, flowOut2)"
    by (rule flow_step2)
next
  show "map dy (tracks flowState2) =
     [js_sub (rnd (47 / 100)) (rnd (9 / 20)), js_sub (rnd (47 / 100)) (rnd (9 / 20)),
      js_sub (rnd (47 / 100)) (rnd (9 / 20)), js_sub (rnd (47 / 100)) (rnd (9 / 20)),
      js_sub (rnd (47 / 100)) (rnd (9 / 20)), js_sub (rnd (43 / 100)) (rnd (9 / 20))]"
    by (simp add: flowState2_def)
next
  show "rnd (5 / 1000) < dominantFlow (tracks flowState2)"
    by (simp add: flowState2_def flag_eval rnd_values)
next
  show "map isWrongWay flowOut2 = [None, None, None, None, None, Some True]"
    by (simp add: flowOut2_def car_def)
qed

theorem wrong_way_detection_witness:
  "trackerInv flowState1 \<and> isValid (flowFrame2 ! 5) \<and>
   (\<exists>t\<in>set (tracks flowState2). trackId (flowOut2 ! 5) = Some (id_t t) \<and>
      isWrongWay (flowOut2 ! 5) =
        (if rnd (5 / 1000) < \<bar>dominantFlow (tracks flowState2)\<bar> \<and> rnd (5 / 1000) < \<bar>dy t\<bar> \<and>
            sgn (dominantFlow (tracks flowState2)) \<noteq> sgn (dy t)
         then Some True else isWrongWay (flowFrame2 ! 5)))"
proof -
  have inv: "trackerInv flowState1"
    by (simp add: trackerInv_def flowState1_def)
  have v: "isValid (flowFrame2 ! 5)" and l: "5 < length flowFrame2"
    by (simp_all add: flowFrame2_def isValid_def car_def)
  from wrong_way_detection [of flowState1 flowFrame2 1 flowState2 flowOut2 5] inv v l flow_step2
  show ?thesis
    by blast
qed
section \<open>Track identifiers and reset\<close>

lemma assignedIds_upt:
  "assignedIds s ds ts = [nextId s..<nextId (fst (update s ds ts))] \<and>
   nextId s \<le> nextId (fst (update s ds ts))"
proof (rule update_phases [where s = s and ds = ds and ts = ts])
  fix matched um ds1 new ds2
  assume "matchTracks (filterValid ds) (agedTracks s) ([0..<length (filterValid ds)], ds) =
      (matched, um, ds1)"
    and "foldl (createTrack (filterValid ds) ts) ([], nextId s, ds1) um =
      (new, nextId s + length um, ds2)"
    and "update s ds ts =
       (\<lparr>tracks = filter (\<lambda>t. missingFrames t \<le> maxMissingFrames) (matched @ new),
         nextId = nextId s + length um\<rparr>,
        flagDetections (matched @ new) (dominantFlow (matched @ new)) (filterValid ds) ds2)"
    and "map id_t new = [nextId s..<nextId s + length um]"
  then show ?thesis
    by (simp add: assignedIds_def matchPhase_def createTracks_def Let_def)
qed

lemma upt_append_upt: "a \<le> b \<Longrightarrow> b \<le> c \<Longrightarrow> [a..<b] @ [b..<c] = [a..<c]"
  by (metis le_Suc_ex upt_add_eq_append)

lemma assignedIdsRun_upt:
  "assignedIdsRun s frames = [nextId s..<nextId (updates s frames)] \<and>
   nextId s \<le> nextId (updates s frames)"
proof (induction frames arbitrary: s)
  case Nil
  then show ?case by simp
next
  case (Cons frame frames)
  define s1 where "s1 = fst (update s (fst frame) (snd frame))"
  from assignedIds_upt [of s "fst frame" "snd frame"]
  have 1: "assignedIds s (fst frame) (snd frame) = [nextId s..<nextId s1]" "nextId s \<le> nextId s1"
    by (simp_all add: s1_def)
  from Cons.IH [of s1]
  have 2: "assignedIdsRun s1 frames = [nextId s1..<nextId (updates s1 frames)]"
    "nextId s1 \<le> nextId (updates s1 frames)"
    by simp_all
  from 1 2 show ?case
    by (simp add: s1_def [symmetric] upt_append_upt)
qed

text \<open>
  Claim C5. On a tracker that starts fresh and is not reset, whatever frames the
  \<open>update\<close> calls receive: the identifiers handed out, in the order of their
  assignment, are 1, 2, 3, ... up to \<open>nextId - 1\<close>, so they increase strictly from 1 and
  none is handed out twice, also not after its track was evicted; the tracks in the store
  have pairwise different identifiers, each one of those handed out.
\<close>

theorem track_ids_unique_increasing:
  "assignedIdsRun newTracker frames = [1..<nextId (updates newTracker frames)] \<and>
   sorted_wrt (<) (assignedIdsRun newTracker frames) \<and>
   distinct (assignedIdsRun newTracker frames) \<and>
   distinct (map id_t (tracks (updates newTracker frames))) \<and>
   set (map id_t (tracks (updates newTracker frames))) \<subseteq> set (assignedIdsRun newTracker frames)"
proof -
  have run: "assignedIdsRun newTracker frames = [1..<nextId (updates newTracker frames)]"
    using assignedIdsRun_upt [of newTracker frames] by (simp add: newTracker_def)
  have inv: "trackerInv (updates newTracker frames)"
    by (rule updates_inv [OF trackerInv_newTracker])
  then have "sorted_wrt (<) (map id_t (tracks (updates newTracker frames)))"
    and "\<forall>t\<in>set (tracks (updates newTracker frames)).
      0 < id_t t \<and> id_t t < nextId (updates newTracker frames)"
    by (simp_all add: trackerInv_def list_all_iff)
  then have "distinct (map id_t (tracks (updates newTracker frames)))"
    and "set (map id_t (tracks (updates newTracker frames))) \<subseteq>
      set [1..<nextId (updates newTracker frames)]"
    by (auto simp: strict_sorted_iff)
  then show ?thesis
    unfolding run by (simp add: sorted_wrt_upt del: upt_Suc)
qed

theorem track_ids_unique_increasing_witness:
  "assignedIdsRun newTracker [(greedyFrame1, 0), (greedyFrame2, 1)] = [1, 2] \<and>
   map id_t (tracks (updates newTracker [(greedyFrame1, 0), (greedyFrame2, 1)])) = [1, 2]"
proof -
  have run: "updates newTracker [(greedyFrame1, 0), (greedyFrame2, 1)] = greedyState2"
    by (simp add: greedy_step1 greedy_step2)
  have n: "nextId greedyState2 = 3" and ids: "map id_t (tracks greedyState2) = [1, 2]"
    by (simp_all add: greedyState2_def)
  have "[1..<3] = [1, 2 :: nat]"
    by (simp add: upt_conv_Cons)
  with track_ids_unique_increasing [of "[(greedyFrame1, 0), (greedyFrame2, 1)]"] run n ids
  show ?thesis
    by simp
qed

text \<open>
  Claim C9. After \<open>reset\<close> no track is active and the tracker is in the state of a new
  one, so \<open>reset\<close> twice is \<open>reset\<close> once. The next \<open>update\<close> creates one track for each
  vehicle detection that has a box, with the identifiers 1, 2, ... in their order, and
  over any later sequence of \<open>update\<close> calls the identifiers handed out start from 1.
\<close>

lemma update_from_empty:
  assumes "tracks s = []"
  shows "map id_t (tracks (fst (update s ds ts))) = [nextId s..<nextId s + length (filterValid ds)]"
proof (rule update_phases [where s = s and ds = ds and ts = ts])
  fix matched um ds1 new ds2
  assume m: "matchTracks (filterValid ds) (agedTracks s) ([0..<length (filterValid ds)], ds) =
      (matched, um, ds1)"
    and upd: "update s ds ts =
       (\<lparr>tracks = filter (\<lambda>t. missingFrames t \<le> maxMissingFrames) (matched @ new),
         nextId = nextId s + length um\<rparr>,
        flagDetections (matched @ new) (dominantFlow (matched @ new)) (filterValid ds) ds2)"
    and ids: "map id_t new = [nextId s..<nextId s + length um]"
    and fresh: "\<forall>t\<in>set new. freshTrack t"
  from m assms have "matched = []" "um = [0..<length (filterValid ds)]"
    by (auto simp: agedTracks_def)
  moreover have "filter (\<lambda>t. missingFrames t \<le> maxMissingFrames) new = new"
    using fresh by (simp add: freshTrack_def filter_id_conv)
  ultimately show ?thesis
    using upd ids by simp
qed

theorem reset_semantics:
  "getActiveTracksCount (reset s) = 0 \<and>
   reset (reset s) = reset s \<and>
   reset s = newTracker \<and>
   map id_t (tracks (fst (update (reset s) detections timestamp))) =
     [1..<1 + length (filterValid detections)] \<and>
   assignedIdsRun (reset s) frames = [1..<nextId (updates (reset s) frames)]"
proof -
  have r: "reset s = newTracker"
    by (simp add: reset_def newTracker_def)
  have "map id_t (tracks (fst (update newTracker detections timestamp))) =
     [1..<1 + length (filterValid detections)]"
    using update_from_empty [of newTracker detections timestamp] by (simp add: newTracker_def)
  moreover have "assignedIdsRun newTracker frames = [1..<nextId (updates newTracker frames)]"
    using assignedIdsRun_upt [of newTracker frames] by (simp add: newTracker_def)
  ultimately show ?thesis
    unfolding r by (simp add: getActiveTracksCount_def newTracker_def reset_def)
qed

theorem reset_semantics_witness:
  "getActiveTracksCount (reset greedyState2) = 0 \<and>
   reset (reset greedyState2) = reset greedyState2 \<and>
   map id_t (tracks (fst (update (reset greedyState2) [car (0, 0, 100, 100), walker,
      car (0, 50, 100, 150)] 7))) = [1, 2]"
proof -
  let ?frame = "[car (0, 0, 100, 100), walker, car (0, 50, 100, 150)]"
  have n: "length (filterValid ?frame) = 2"
    by (simp add: filterValid_def isValid_def car_def walker_def)
  have u: "[1..<1 + 2] = [1, 2 :: nat]"
    by (simp add: upt_conv_Cons)
  from reset_semantics [of greedyState2 ?frame 7 "[]"]
  have "getActiveTracksCount (reset greedyState2) = 0"
    and "reset (reset greedyState2) = reset greedyState2"
    and "map id_t (tracks (fst (update (reset greedyState2) ?frame 7))) =
      [1..<1 + length (filterValid ?frame)]"
    by blast+
  then show ?thesis
    by (simp only: n u simp_thms)
qed
section \<open>Greedy matching\<close>

lemma iouThreshold_nonneg: "0 \<le> iouThreshold"
  by (simp add: iouThreshold_def rnd_nonneg)

lemma scan_below:
  "\<forall>x\<in>set xs. \<forall>u. candidateIoU tb ds valid um x = Some u \<longrightarrow> u < v \<Longrightarrow> snd acc < v \<Longrightarrow>
     snd (foldl (scanDetection tb ds valid um) acc xs) < v"
proof (induction xs arbitrary: acc)
  case Nil
  then show ?case by simp
next
  case (Cons x xs)
  have "snd (scanDetection tb ds valid um acc x) < v"
    using Cons.prems by (auto simp: scanDetection_candidate split: option.splits)
  with Cons.IH [of "scanDetection tb ds valid um acc x"] Cons.prems(1) show ?case
    by simp
qed

lemma scan_stay:
  "\<forall>x\<in>set xs. \<forall>u. candidateIoU tb ds valid um x = Some u \<longrightarrow> u \<le> snd acc \<Longrightarrow>
     foldl (scanDetection tb ds valid um) acc xs = acc"
proof (induction xs)
  case Nil
  then show ?case by simp
next
  case (Cons x xs)
  have "scanDetection tb ds valid um acc x = acc"
    using Cons.prems by (auto simp: scanDetection_candidate split: option.splits)
  with Cons show ?case
    by simp
qed

lemma upt_split: "j < n \<Longrightarrow> [0..<n] = [0..<j] @ j # [Suc j..<n]"
proof -
  assume j: "j < n"
  then have "[0..<n] = [0..<j] @ [j..<n]"
    using upt_add_eq_append [of 0 j "n - j"] by simp
  also have "[j..<n] = j # [Suc j..<n]"
    using j by (rule upt_conv_Cons)
  finally show ?thesis .
qed

text \<open>The scan returns the first of the unassigned detections whose IoU is the largest,
  when that IoU exceeds the threshold.\<close>

lemma findBestMatch_best:
  assumes j: "j < length valid" and c: "candidateIoU tb ds valid um j = Some v"
    and thr: "iouThreshold < v"
    and others: "\<forall>j'<length valid. j' \<noteq> j \<longrightarrow>
       (\<forall>u. candidateIoU tb ds valid um j' = Some u \<longrightarrow> u < v \<or> (u = v \<and> j < j'))"
  shows "findBestMatch tb ds valid um = Some j"
proof -
  let ?f = "scanDetection tb ds valid um"
  define acc1 where "acc1 = foldl ?f (None, 0) [0..<j]"
  have "\<forall>x\<in>set [0..<j]. \<forall>u. candidateIoU tb ds valid um x = Some u \<longrightarrow> u < v"
  proof (intro ballI allI impI)
    fix x u assume x: "x \<in> set [0..<j]" and u: "candidateIoU tb ds valid um x = Some u"
    then have "x < length valid" "x \<noteq> j" "\<not> j < x"
      using j by auto
    with others u show "u < v"
      by blast
  qed
  moreover have "snd (None :: nat option, 0 :: number) < v"
    using thr iouThreshold_nonneg by simp
  ultimately have 1: "snd acc1 < v"
    unfolding acc1_def by (rule scan_below)
  have 2: "?f acc1 j = (Some j, v)"
    using c thr 1 by (simp add: scanDetection_candidate)
  have "\<forall>x\<in>set [Suc j..<length valid].
      \<forall>u. candidateIoU tb ds valid um x = Some u \<longrightarrow> u \<le> snd (Some j, v)"
  proof (intro ballI allI impI)
    fix x u assume x: "x \<in> set [Suc j..<length valid]"
      and u: "candidateIoU tb ds valid um x = Some u"
    then have "x < length valid" "x \<noteq> j"
      by auto
    with others u have "u < v \<or> (u = v \<and> j < x)"
      by blast
    then show "u \<le> snd (Some j, v)"
      by auto
  qed
  then have 3: "foldl ?f (Some j, v) [Suc j..<length valid] = (Some j, v)"
    by (rule scan_stay)
  have "foldl ?f (None, 0) [0..<length valid] = (Some j, v)"
    by (simp only: upt_split [OF j] foldl_append foldl_Cons acc1_def [symmetric] 2 3)
  then show ?thesis
    by (simp add: findBestMatch_def)
qed

lemma matchTracks_append:
  "matchTracks valid (xs @ ys) st =
     (case matchTracks valid xs st of (xs', st') \<Rightarrow>
        case matchTracks valid ys st' of (ys', st'') \<Rightarrow> (xs' @ ys', st''))"
  by (induction xs arbitrary: st) (auto split: prod.splits)

lemma filterValid_sorted: "sorted_wrt (<) (filterValid ds)"
  by (simp add: filterValid_def sorted_wrt_filter)

lemma applyFlags_trackId: "trackId (applyFlags trks dd d) = trackId d"
  by (simp add: applyFlags_def Let_def split: option.splits)

lemma matchTracks_frame:
  assumes "matchTracks valid ts (um, ds) = (ts', um', ds')"
  shows "length ds' = length ds"
    and "\<forall>k<length ds. box_2d (ds' ! k) = box_2d (ds ! k) \<and> type (ds' ! k) = type (ds ! k)"
    and "set um' \<subseteq> set um"
proof -
  define R where "R = (\<lambda>(d :: DetectionItem) (d' :: DetectionItem).
     box_2d d' = box_2d d \<and> type d' = type d)"
  have "changedWithin (set valid) R ds ds' \<and> set um' \<subseteq> set um"
    by (rule matchTracks_changedWithin [OF _ _ _ assms]) (simp_all add: R_def reflp_def transp_def)
  then show "length ds' = length ds"
    and "\<forall>k<length ds. box_2d (ds' ! k) = box_2d (ds ! k) \<and> type (ds' ! k) = type (ds ! k)"
    and "set um' \<subseteq> set um"
    by (auto simp: changedWithin_def R_def split: if_splits)
qed

text \<open>
  Claim C1, amended. Matching is greedy in the order of the store: a track claims its
  best detection among those that no earlier track has claimed, and of two detections
  with the same IoU it takes the first. So: given a track of the store, with last box
  \<open>B\<close>, and a vehicle detection of the input with box \<open>B'\<close> and \<open>iou B B' > 0.15\<close>, such
  that every other vehicle detection of the input has a lower IoU against that track, or
  the same IoU and a later place in the input, and such that the detection is still
  unclaimed when the loop reaches the track (\<open>poolBefore\<close>), \<open>update\<close> gives the detection
  the identifier of the track.
\<close>

theorem match_stability:
  assumes upd: "update s detections timestamp = (s', out)"
    and p: "p < length (tracks s)"
    and i: "i < length detections"
    and ty: "type (detections ! i) = vehicle"
    and bx: "box_2d (detections ! i) = Some b'"
    and iou: "calculateIoU (box (tracks s ! p)) b' = Some v"
    and thr: "iouThreshold < v"
    and others: "\<forall>i'<length detections. i' \<noteq> i \<longrightarrow> type (detections ! i') = vehicle \<longrightarrow>
       (\<forall>b'' u. box_2d (detections ! i') = Some b'' \<longrightarrow>
          calculateIoU (box (tracks s ! p)) b'' = Some u \<longrightarrow> u < v \<or> (u = v \<and> i < i'))"
    and pool: "i \<in> set (poolBefore s detections p)"
  shows "trackId (out ! i) = Some (id_t (tracks s ! p))"
proof (rule update_phases [where s = s and ds = detections and ts = timestamp])
  fix matched um ds1 new ds2
  define valid where "valid = filterValid detections"
  define aged where "aged = agedTracks s"
  define tp where "tp = aged ! p"
  assume "matchTracks (filterValid detections) (agedTracks s)
      ([0..<length (filterValid detections)], detections) = (matched, um, ds1)"
    and "foldl (createTrack (filterValid detections) timestamp) ([], nextId s, ds1) um =
      (new, nextId s + length um, ds2)"
    and "update s detections timestamp =
       (\<lparr>tracks = filter (\<lambda>t. missingFrames t \<le> maxMissingFrames) (matched @ new),
         nextId = nextId s + length um\<rparr>,
        flagDetections (matched @ new) (dominantFlow (matched @ new))
          (filterValid detections) ds2)"
    and len2: "length ds2 = length detections"
  then have m: "matchTracks valid aged ([0..<length valid], detections) = (matched, um, ds1)"
    and c: "foldl (createTrack valid timestamp) ([], nextId s, ds1) um =
      (new, nextId s + length um, ds2)"
    and out: "out = flagDetections (matched @ new) (dominantFlow (matched @ new)) valid ds2"
    using upd by (simp_all add: valid_def aged_def)
  have d: "distinct valid" and srt: "sorted_wrt (<) valid"
    and ok: "\<forall>k\<in>set valid. k < length detections \<and> box_2d (detections ! k) \<noteq> None"
    by (simp_all add: valid_def filterValid_distinct filterValid_sorted filterValid_ok)
  have plen: "p < length aged"
    using p by (simp add: aged_def agedTracks_def)
  have tpbox: "box tp = box (tracks s ! p)" and tpid: "id_t tp = id_t (tracks s ! p)"
    using p by (simp_all add: tp_def aged_def agedTracks_def)
  have split: "aged = take p aged @ tp # drop (Suc p) aged"
    unfolding tp_def using plen by (rule id_take_nth_drop)
  obtain xs' um1 dsA where m1: "matchTracks valid (take p aged) ([0..<length valid], detections) =
      (xs', um1, dsA)"
    by (cases "matchTracks valid (take p aged) ([0..<length valid], detections)") auto
  obtain t' um2 dsB where m2: "matchTrack valid tp (um1, dsA) = (t', um2, dsB)"
    by (cases "matchTrack valid tp (um1, dsA)") auto
  obtain ys' um3 dsC where m3: "matchTracks valid (drop (Suc p) aged) (um2, dsB) = (ys', um3, dsC)"
    by (cases "matchTracks valid (drop (Suc p) aged) (um2, dsB)") auto
  have "matchTracks valid aged ([0..<length valid], detections) = (xs' @ t' # ys', um3, dsC)"
    by (subst split) (simp add: matchTracks_append m1 m2 m3)
  with m have um: "um = um3" and ds1: "ds1 = dsC"
    by simp_all
  from matchTracks_frame [OF m1]
  have lenA: "length dsA = length detections"
    and frameA: "\<forall>k<length detections. box_2d (dsA ! k) = box_2d (detections ! k) \<and>
       type (dsA ! k) = type (detections ! k)"
    and um1: "set um1 \<subseteq> set [0..<length valid]"
    by auto
  from pool m1 obtain j where j: "j \<in> set um1" "valid ! j = i"
    by (auto simp: poolBefore_def Let_def valid_def aged_def)
  have jn: "j < length valid"
    using j(1) um1 by auto
  have cand: "candidateIoU (box tp) dsA valid um1 j = Some v"
    using j i bx iou frameA by (simp add: candidateIoU_def tpbox)
  have oth: "\<forall>j'<length valid. j' \<noteq> j \<longrightarrow>
       (\<forall>u. candidateIoU (box tp) dsA valid um1 j' = Some u \<longrightarrow> u < v \<or> (u = v \<and> j < j'))"
  proof (intro allI impI)
    fix j' u assume j': "j' < length valid" "j' \<noteq> j"
      and u: "candidateIoU (box tp) dsA valid um1 j' = Some u"
    define i' where "i' = valid ! j'"
    have i'v: "i' \<in> set valid"
      using j'(1) by (simp add: i'_def)
    then have i'len: "i' < length detections" and i'ty: "type (detections ! i') = vehicle"
      by (simp_all add: valid_def filterValid_set isValid_def)
    have "valid ! j' \<noteq> valid ! j"
      using d j' jn by (simp add: nth_eq_iff_index_eq)
    then have neq: "i' \<noteq> i"
      by (simp add: i'_def j(2))
    from u obtain b'' where b'': "box_2d (dsA ! i') = Some b''"
      "calculateIoU (box tp) b'' = Some u"
      by (auto simp: candidateIoU_def i'_def split: if_splits option.splits)
    then have bd: "box_2d (detections ! i') = Some b''"
      using frameA i'len by simp
    have iu: "calculateIoU (box (tracks s ! p)) b'' = Some u"
      using b''(2) by (simp only: tpbox)
    from others i'len neq i'ty bd iu have "u < v \<or> (u = v \<and> i < i')"
      by blast
    moreover have "j < j'" if "i < i'"
    proof (rule ccontr)
      assume "\<not> j < j'"
      with j'(2) have "j' < j"
        by simp
      with srt jn have "valid ! j' < valid ! j"
        by (simp add: sorted_wrt_nth_less)
      with that show False
        by (simp add: i'_def j(2))
    qed
    ultimately show "u < v \<or> (u = v \<and> j < j')"
      by blast
  qed
  have best: "findBestMatch (box tp) dsA valid um1 = Some j"
    using jn cand thr oth by (rule findBestMatch_best)
  from m2 have hit: "id_t t' = id_t tp \<and> um2 = removeAll j um1 \<and>
      dsB = dsA[i := annotate t' (dsA ! i)]"
    using best j(2) by (cases rule: matchTrack_cases) (simp_all add: matchUpdate_simps)
  have lenB: "length dsB = length detections"
    using hit lenA by simp
  have B: "trackId (dsB ! i) = Some (id_t (tracks s ! p))"
    using hit i lenA by (simp add: annotate_def tpid)
  have jum2: "j \<notin> set um2"
    using hit by simp
  have "\<forall>k\<in>set valid. k < length dsB"
    using ok lenB by simp
  from matchTracks_assigned [OF d this m3 jn] jum2
  have C: "dsC ! i = dsB ! i"
    by (simp add: j(2))
  have jum3: "j \<notin> set um3"
    using matchTracks_frame(3) [OF m3] jum2 by auto
  have lenC: "length dsC = length detections"
    using matchTracks_frame(1) [OF m3] lenB by simp
  have frameC: "\<forall>k<length detections. box_2d (dsC ! k) = box_2d (detections ! k)"
    using matchTracks_frame(2) [OF m] by (simp add: ds1)
  have okC: "\<forall>k\<in>set valid. k < length dsC \<and> box_2d (dsC ! k) \<noteq> None"
    using ok lenC frameC by simp
  have um3: "\<forall>x\<in>set um3. x < length valid"
    using matchTracks_frame(3) [OF m] by (auto simp: um)
  from createTracks_fold [OF d okC um3 c [unfolded um ds1]] jn jum3
  have D: "ds2 ! i = dsC ! i"
    by (auto simp: j(2))
  have "\<forall>k\<in>set valid. k < length ds2"
    using ok len2 by simp
  from flagDetections_nth [OF d this, of "matched @ new" "dominantFlow (matched @ new)"] i len2
  have "out ! i = applyFlags (matched @ new) (dominantFlow (matched @ new)) (ds2 ! i) \<or>
      out ! i = ds2 ! i"
    by (simp add: out)
  then have "trackId (out ! i) = trackId (ds2 ! i)"
    by (auto simp: applyFlags_trackId)
  with B C D show ?thesis
    by simp
qed

text \<open>The claim as it stands fails at the second of two tracks that overlap: the
  detection sits exactly on the box of track 2, no other detection competes, and track 1,
  which also overlaps it with an IoU above the threshold, takes it first.\<close>

theorem match_stability_counterexample:
  "update newTracker greedyFrame1 0 = (greedyState1, greedyOut1) \<and>
   update greedyState1 greedyFrame2 1 = (greedyState2, greedyOut2) \<and>
   map id_t (tracks greedyState1) = [1, 2] \<and>
   box (tracks greedyState1 ! 1) = (0, 50, 100, 150) \<and>
   map type greedyFrame2 = [vehicle] \<and>
   map box_2d greedyFrame2 = [Some (0, 50, 100, 150)] \<and>
   calculateIoU (0, 50, 100, 150) (0, 50, 100, 150) = Some 1 \<and>
   iouThreshold < 1 \<and>
   map trackId greedyOut2 = [Some 1]"
proof (intro conjI)
  show "update newTracker greedyFrame1 0 = (greedyState1, greedyOut1)"
    by (rule greedy_step1)
  show "update greedyState1 greedyFrame2 1 = (greedyState2, greedyOut2)"
    by (rule greedy_step2)
  show "map id_t (tracks greedyState1) = [1, 2]"
    and "box (tracks greedyState1 ! 1) = (0, 50, 100, 150)"
    by (simp_all add: greedyState1_def)
  show "map type greedyFrame2 = [vehicle]"
    and "map box_2d greedyFrame2 = [Some (0, 50, 100, 150)]"
    by (simp_all add: greedyFrame2_def car_def)
  show "calculateIoU (0, 50, 100, 150) (0, 50, 100, 150) = Some 1"
    by (simp add: calculateIoU_small smallBox_def js_quot_def rnd_values)
  show "iouThreshold < 1"
    by (simp add: iouThreshold_def rnd_values)
  show "map trackId greedyOut2 = [Some 1]"
    by (simp add: greedyOut2_def)
qed

theorem match_stability_witness:
  "update greedyState1 greedyFrame2Far 1 = (greedyFarState2, greedyFarOut2) \<and>
   box (tracks greedyState1 ! 1) = (0, 50, 100, 150) \<and>
   id_t (tracks greedyState1 ! 1) = 2 \<and>
   type (greedyFrame2Far ! 0) = vehicle \<and>
   box_2d (greedyFrame2Far ! 0) = Some (0, 90, 100, 190) \<and>
   calculateIoU (0, 50, 100, 150) (0, 90, 100, 190) = Some (rnd (3 / 7)) \<and>
   iouThreshold < rnd (3 / 7) \<and>
   poolBefore greedyState1 greedyFrame2Far 1 = [0] \<and>
   trackId (greedyFarOut2 ! 0) = Some 2"
proof -
  have p: "1 < length (tracks greedyState1)"
    and b: "box (tracks greedyState1 ! 1) = (0, 50, 100, 150)"
    and id: "id_t (tracks greedyState1 ! 1) = 2"
    by (simp_all add: greedyState1_def)
  have i: "0 < length greedyFrame2Far" and ty: "type (greedyFrame2Far ! 0) = vehicle"
    and bx: "box_2d (greedyFrame2Far ! 0) = Some (0, 90, 100, 190)"
    by (simp_all add: greedyFrame2Far_def car_def)
  have iou: "calculateIoU (0, 50, 100, 150) (0, 90, 100, 190) = Some (rnd (3 / 7))"
    by (simp add: calculateIoU_small smallBox_def js_quot_def)
  have thr: "iouThreshold < rnd (3 / 7)"
    by (simp add: iouThreshold_def rnd_values)
  have others: "\<forall>i'<length greedyFrame2Far. i' \<noteq> 0 \<longrightarrow>
      type (greedyFrame2Far ! i') = vehicle \<longrightarrow>
      (\<forall>b'' u. box_2d (greedyFrame2Far ! i') = Some b'' \<longrightarrow>
         calculateIoU (box (tracks greedyState1 ! 1)) b'' = Some u \<longrightarrow>
         u < rnd (3 / 7) \<or> (u = rnd (3 / 7) \<and> 0 < i'))"
    by (simp add: greedyFrame2Far_def)
  have pool: "poolBefore greedyState1 greedyFrame2Far 1 = [0]"
    by (simp add: poolBefore_def phase_eval greedyState1_def greedyFrame2Far_def car_def
        rnd_values cong: prod.case_cong_weak let_weak_cong)
  then have mem: "0 \<in> set (poolBefore greedyState1 greedyFrame2Far 1)"
    by simp
  from match_stability [OF greedyFar_step2 p i ty bx iou [folded b] thr others mem]
  have "trackId (greedyFarOut2 ! 0) = Some 2"
    by (simp only: id)
  with greedyFar_step2 b id ty bx iou thr pool show ?thesis
    by (simp only: simp_thms)
qed
section \<open>Ageing and eviction\<close>

lemma update_tracks_bounded:
  "\<forall>t\<in>set (tracks (fst (update s ds ts))). missingFrames t \<le> maxMissingFrames"
  by (simp add: update_def split: prod.splits)

text \<open>The track at position \<open>p\<close> leaves the matching loop with its identifier, with
  the count 0 when its scan found a detection, and otherwise as step 1 left it.\<close>

lemma matchPhase_nth:
  assumes p: "p < length (tracks s)"
  shows "id_t (fst (matchPhase s ds) ! p) = id_t (tracks s ! p)"
    and "matchAt s ds p = None \<Longrightarrow>
      fst (matchPhase s ds) ! p = (tracks s ! p)\<lparr>missingFrames := missingFrames (tracks s ! p) + 1\<rparr>"
    and "matchAt s ds p \<noteq> None \<Longrightarrow> missingFrames (fst (matchPhase s ds) ! p) = 0"
proof -
  define valid where "valid = filterValid ds"
  define aged where "aged = agedTracks s"
  define tp where "tp = aged ! p"
  have plen: "p < length aged"
    using p by (simp add: aged_def agedTracks_def)
  have tp: "tp = (tracks s ! p)\<lparr>missingFrames := missingFrames (tracks s ! p) + 1\<rparr>"
    using p by (simp add: tp_def aged_def agedTracks_def)
  have split: "aged = take p aged @ tp # drop (Suc p) aged"
    unfolding tp_def using plen by (rule id_take_nth_drop)
  obtain xs' um1 dsA where m1: "matchTracks valid (take p aged) ([0..<length valid], ds) =
      (xs', um1, dsA)"
    by (cases "matchTracks valid (take p aged) ([0..<length valid], ds)") auto
  obtain t' um2 dsB where m2: "matchTrack valid tp (um1, dsA) = (t', um2, dsB)"
    by (cases "matchTrack valid tp (um1, dsA)") auto
  obtain ys' um3 dsC where m3: "matchTracks valid (drop (Suc p) aged) (um2, dsB) = (ys', um3, dsC)"
    by (cases "matchTracks valid (drop (Suc p) aged) (um2, dsB)") auto
  have "matchTracks valid aged ([0..<length valid], ds) = (xs' @ t' # ys', um3, dsC)"
    by (subst split) (simp add: matchTracks_append m1 m2 m3)
  then have mp: "fst (matchPhase s ds) = xs' @ t' # ys'"
    by (simp add: matchPhase_def Let_def valid_def aged_def)
  have "length xs' = p"
    using matchTracks_length [OF m1] plen by simp
  then have nth: "fst (matchPhase s ds) ! p = t'"
    by (simp add: mp nth_append)
  have at: "matchAt s ds p = findBestMatch (box tp) dsA valid um1"
    using m1 by (simp add: matchAt_def Let_def valid_def aged_def tp_def)
  from m2 show "id_t (fst (matchPhase s ds) ! p) = id_t (tracks s ! p)"
    by (rule matchTrack_cases) (simp_all add: nth matchUpdate_simps tp)
  show "fst (matchPhase s ds) ! p =
      (tracks s ! p)\<lparr>missingFrames := missingFrames (tracks s ! p) + 1\<rparr>"
    if none: "matchAt s ds p = None"
  proof -
    from m2 show ?thesis
      by (rule matchTrack_cases) (use none in \<open>simp_all add: nth at tp\<close>)
  qed
  show "missingFrames (fst (matchPhase s ds) ! p) = 0" if some: "matchAt s ds p \<noteq> None"
  proof -
    from m2 show ?thesis
      by (rule matchTrack_cases) (use some in \<open>simp_all add: nth at matchUpdate_simps\<close>)
  qed
qed

lemma matchedInUpdate_position:
  assumes inv: "trackerInv s" and p: "p < length (tracks s)"
  shows "matchedInUpdate s ds (id_t (tracks s ! p)) \<longleftrightarrow> matchAt s ds p \<noteq> None"
proof -
  from inv have dist: "distinct (map id_t (tracks s))"
    by (auto simp: trackerInv_def strict_sorted_iff)
  have uniq: "q = p" if "q < length (tracks s)" "id_t (tracks s ! q) = id_t (tracks s ! p)" for q
  proof -
    from that p have eq: "map id_t (tracks s) ! q = map id_t (tracks s) ! p"
      by simp
    from dist have "(map id_t (tracks s) ! q = map id_t (tracks s) ! p) = (q = p)"
      by (rule nth_eq_iff_index_eq) (simp_all add: that p)
    with eq show ?thesis
      by (simp only:)
  qed
  show ?thesis
  proof
    assume "matchedInUpdate s ds (id_t (tracks s ! p))"
    then obtain q where q: "q < length (tracks s)" "id_t (tracks s ! q) = id_t (tracks s ! p)"
      and some: "matchAt s ds q \<noteq> None"
      unfolding matchedInUpdate_def list_ex_iff by auto
    from uniq [OF q] some show "matchAt s ds p \<noteq> None"
      by simp
  next
    assume "matchAt s ds p \<noteq> None"
    with p show "matchedInUpdate s ds (id_t (tracks s ! p))"
      unfolding matchedInUpdate_def list_ex_iff by auto
  qed
qed

text \<open>A track that stays in the store comes out of a call with the count 0 when it
  matched a detection, and otherwise unchanged but for its count, which is 1 higher.\<close>

lemma update_track_step:
  assumes inv: "trackerInv s" and t: "t \<in> set (tracks s)"
    and t': "t' \<in> set (tracks (fst (update s ds ts)))" and id: "id_t t' = id_t t"
  shows "missingFrames t' =
     (if matchedInUpdate s ds (id_t t) then 0 else missingFrames t + 1)"
    and "\<not> matchedInUpdate s ds (id_t t) \<Longrightarrow> t' = t\<lparr>missingFrames := missingFrames t + 1\<rparr>"
proof -
  have both: "missingFrames t' =
     (if matchedInUpdate s ds (id_t t) then 0 else missingFrames t + 1) \<and>
     (\<not> matchedInUpdate s ds (id_t t) \<longrightarrow> t' = t\<lparr>missingFrames := missingFrames t + 1\<rparr>)"
  proof (rule update_phases [where s = s and ds = ds and ts = ts])
    fix matched um ds1 new ds2
    assume m: "matchTracks (filterValid ds) (agedTracks s) ([0..<length (filterValid ds)], ds) =
        (matched, um, ds1)"
      and upd: "update s ds ts =
         (\<lparr>tracks = filter (\<lambda>t. missingFrames t \<le> maxMissingFrames) (matched @ new),
           nextId = nextId s + length um\<rparr>,
          flagDetections (matched @ new) (dominantFlow (matched @ new)) (filterValid ds) ds2)"
      and idm: "map id_t matched = map id_t (tracks s)"
      and idn: "map id_t new = [nextId s..<nextId s + length um]"
    from inv have dist: "distinct (map id_t (tracks s))"
      and bnd: "\<forall>x\<in>set (tracks s). id_t x < nextId s"
      by (auto simp: trackerInv_def list_all_iff strict_sorted_iff)
    have mp: "fst (matchPhase s ds) = matched"
      using m by (simp add: matchPhase_def Let_def)
    have "id_t t' \<notin> set (map id_t new)"
      using bnd t id by (auto simp: idn)
    with t' have t'm: "t' \<in> set matched"
      by (auto simp: upd)
    then obtain p where p: "p < length matched" "matched ! p = t'"
      by (auto simp: in_set_conv_nth)
    have len: "length matched = length (tracks s)"
      using arg_cong [OF idm, of length] by simp
    have pl: "p < length (tracks s)"
      using p(1) len by simp
    have "map id_t matched ! p = map id_t (tracks s) ! p"
      by (simp only: idm)
    then have eqp: "id_t (tracks s ! p) = id_t t"
      using p id len by simp
    have injs: "inj_on id_t (set (tracks s))"
      using dist by (simp add: distinct_map)
    have memp: "tracks s ! p \<in> set (tracks s)"
      using pl by simp
    have tp: "tracks s ! p = t"
      by (rule inj_onD [OF injs eqp memp t])
    have iff: "matchedInUpdate s ds (id_t t) \<longleftrightarrow> matchAt s ds p \<noteq> None"
      using matchedInUpdate_position [OF inv pl, of ds] by (simp only: tp)
    have nth: "fst (matchPhase s ds) ! p = t'"
      by (simp only: mp p(2))
    show ?thesis
    proof (cases "matchAt s ds p")
      case None
      from matchPhase_nth(2) [OF pl None] have "t' = t\<lparr>missingFrames := missingFrames t + 1\<rparr>"
        by (simp only: nth tp)
      with None iff show ?thesis
        by simp
    next
      case (Some j)
      then have "matchAt s ds p \<noteq> None"
        by simp
      from matchPhase_nth(3) [OF pl this] have "missingFrames t' = 0"
        by (simp only: nth)
      with Some iff show ?thesis
        by simp
    qed
  qed
  from both show "missingFrames t' =
     (if matchedInUpdate s ds (id_t t) then 0 else missingFrames t + 1)"
    by (rule conjunct1)
  from both show "t' = t\<lparr>missingFrames := missingFrames t + 1\<rparr>"
    if "\<not> matchedInUpdate s ds (id_t t)"
    using that by simp
qed

lemma update_nextId_mono: "nextId s \<le> nextId (fst (update s ds ts))"
  using assignedIds_upt [of s ds ts] by simp

lemma update_old_ids:
  assumes inv: "trackerInv s" and t': "t' \<in> set (tracks (fst (update s ds ts)))"
    and old: "id_t t' < nextId s"
  shows "\<exists>t\<in>set (tracks s). id_t t = id_t t'"
proof (rule update_phases [where s = s and ds = ds and ts = ts])
  fix matched um ds1 new ds2
  assume upd: "update s ds ts =
       (\<lparr>tracks = filter (\<lambda>t. missingFrames t \<le> maxMissingFrames) (matched @ new),
         nextId = nextId s + length um\<rparr>,
        flagDetections (matched @ new) (dominantFlow (matched @ new)) (filterValid ds) ds2)"
    and idm: "map id_t matched = map id_t (tracks s)"
    and idn: "map id_t new = [nextId s..<nextId s + length um]"
  have "id_t t' \<notin> set (map id_t new)"
    using old by (simp add: idn)
  with t' have "id_t t' \<in> set (map id_t matched)"
    by (auto simp: upd)
  then show ?thesis
    unfolding idm by auto
qed

lemma unmatchedRun_ages:
  "trackerInv s \<Longrightarrow> i < nextId s \<Longrightarrow> unmatchedRun s i frames \<Longrightarrow>
     \<forall>t\<in>set (tracks s). id_t t = i \<longrightarrow> m \<le> missingFrames t \<Longrightarrow>
     \<forall>t\<in>set (tracks (updates s frames)). id_t t = i \<longrightarrow> m + length frames \<le> missingFrames t"
proof (induction frames arbitrary: s m)
  case Nil
  then show ?case by simp
next
  case (Cons frame frames)
  define s1 where "s1 = fst (update s (fst frame) (snd frame))"
  have inv1: "trackerInv s1"
    unfolding s1_def by (rule update_inv [OF Cons.prems(1)])
  have lt1: "i < nextId s1"
    using Cons.prems(2) update_nextId_mono [of s "fst frame" "snd frame"] by (simp add: s1_def)
  have run1: "unmatchedRun s1 i frames" and nm: "\<not> matchedInUpdate s (fst frame) i"
    using Cons.prems(3) by (simp_all add: s1_def)
  have "\<forall>t\<in>set (tracks s1). id_t t = i \<longrightarrow> m + 1 \<le> missingFrames t"
  proof (intro ballI impI)
    fix t' assume t': "t' \<in> set (tracks s1)" "id_t t' = i"
    with update_old_ids [OF Cons.prems(1), of t' "fst frame" "snd frame"] Cons.prems(2)
    obtain t where t: "t \<in> set (tracks s)" "id_t t = i"
      by (auto simp: s1_def)
    from update_track_step(1) [OF Cons.prems(1) t(1), of t' "fst frame" "snd frame"] t' t(2) nm
    have "missingFrames t' = missingFrames t + 1"
      by (simp add: s1_def)
    with Cons.prems(4) t show "m + 1 \<le> missingFrames t'"
      by auto
  qed
  from Cons.IH [OF inv1 lt1 run1 this] show ?case
    by (simp add: s1_def)
qed

lemma updates_tracks_bounded:
  "frames \<noteq> [] \<Longrightarrow> \<forall>t\<in>set (tracks (updates s frames)). missingFrames t \<le> maxMissingFrames"
proof (induction frames arbitrary: s)
  case Nil
  then show ?case by simp
next
  case (Cons frame frames)
  show ?case
  proof (cases "frames = []")
    case True
    then show ?thesis
      using update_tracks_bounded [of s "fst frame" "snd frame"] by simp
  next
    case False
    from Cons.IH [OF this] show ?thesis by simp
  qed
qed

text \<open>A track matches no detection of a frame in which every box has an IoU with its box
  that does not exceed the threshold; unmatched, it keeps its box.\<close>

lemma scan_none:
  "\<forall>x\<in>set xs. \<forall>u. candidateIoU tb ds valid um x = Some u \<longrightarrow> \<not> iouThreshold < u \<Longrightarrow>
     foldl (scanDetection tb ds valid um) acc xs = acc"
proof (induction xs)
  case Nil
  then show ?case by simp
next
  case (Cons x xs)
  have "scanDetection tb ds valid um acc x = acc"
    using Cons.prems by (auto simp: scanDetection_candidate split: option.splits)
  with Cons show ?case
    by simp
qed

lemma matchAt_apart:
  assumes p: "p < length (tracks s)" and bx: "box (tracks s ! p) = bx"
    and far: "\<forall>d\<in>set ds. \<forall>b u. box_2d d = Some b \<longrightarrow> calculateIoU bx b = Some u \<longrightarrow>
       u \<le> iouThreshold"
  shows "matchAt s ds p = None"
proof -
  define valid where "valid = filterValid ds"
  obtain xs' um1 dsA
    where m1: "matchTracks valid (take p (agedTracks s)) ([0..<length valid], ds) =
      (xs', um1, dsA)"
    by (cases "matchTracks valid (take p (agedTracks s)) ([0..<length valid], ds)") auto
  have tb: "box (agedTracks s ! p) = bx"
    using p bx by (simp add: agedTracks_def)
  have at: "matchAt s ds p = findBestMatch bx dsA valid um1"
    using m1 by (simp add: matchAt_def Let_def valid_def tb)
  from matchTracks_frame(2) [OF m1]
  have frame: "\<forall>k<length ds. box_2d (dsA ! k) = box_2d (ds ! k)"
    by simp
  have "\<forall>x\<in>set [0..<length valid]. \<forall>u.
      candidateIoU bx dsA valid um1 x = Some u \<longrightarrow> \<not> iouThreshold < u"
  proof (intro ballI allI impI)
    fix x u assume x: "x \<in> set [0..<length valid]"
      and u: "candidateIoU bx dsA valid um1 x = Some u"
    from x have "valid ! x \<in> set valid"
      by simp
    then have k: "valid ! x < length ds"
      by (simp add: valid_def filterValid_set)
    from u obtain b where "box_2d (dsA ! (valid ! x)) = Some b" and iou: "calculateIoU bx b = Some u"
      by (auto simp: candidateIoU_def split: if_splits option.splits)
    with frame k have "box_2d (ds ! (valid ! x)) = Some b"
      by simp
    moreover have "ds ! (valid ! x) \<in> set ds"
      using k by simp
    ultimately have "u \<le> iouThreshold"
      using far iou by blast
    then show "\<not> iouThreshold < u"
      by simp
  qed
  then have "foldl (scanDetection bx dsA valid um1) (None, 0) [0..<length valid] = (None, 0)"
    by (rule scan_none)
  then show ?thesis
    by (simp add: at findBestMatch_def)
qed

lemma unmatchedRun_apart:
  "trackerInv s \<Longrightarrow> i < nextId s \<Longrightarrow> \<forall>t\<in>set (tracks s). id_t t = i \<longrightarrow> box t = bx \<Longrightarrow>
     \<forall>frame\<in>set frames. \<forall>d\<in>set (fst frame). \<forall>b u.
        box_2d d = Some b \<longrightarrow> calculateIoU bx b = Some u \<longrightarrow> u \<le> iouThreshold \<Longrightarrow>
     unmatchedRun s i frames"
proof (induction frames arbitrary: s)
  case Nil
  then show ?case by simp
next
  case (Cons frame frames)
  define s1 where "s1 = fst (update s (fst frame) (snd frame))"
  have far: "\<forall>d\<in>set (fst frame). \<forall>b u. box_2d d = Some b \<longrightarrow> calculateIoU bx b = Some u \<longrightarrow>
      u \<le> iouThreshold"
    using Cons.prems(4) by simp
  have nm: "\<not> matchedInUpdate s (fst frame) i"
  proof
    assume "matchedInUpdate s (fst frame) i"
    then obtain p where p: "p < length (tracks s)" "id_t (tracks s ! p) = i"
      and some: "matchAt s (fst frame) p \<noteq> None"
      unfolding matchedInUpdate_def list_ex_iff by auto
    from p Cons.prems(3) have "box (tracks s ! p) = bx"
      by simp
    from matchAt_apart [OF p(1) this far] some show False
      by simp
  qed
  have inv1: "trackerInv s1"
    unfolding s1_def by (rule update_inv [OF Cons.prems(1)])
  have lt1: "i < nextId s1"
    using Cons.prems(2) update_nextId_mono [of s "fst frame" "snd frame"] by (simp add: s1_def)
  have box1: "\<forall>t\<in>set (tracks s1). id_t t = i \<longrightarrow> box t = bx"
  proof (intro ballI impI)
    fix t' assume t': "t' \<in> set (tracks s1)" "id_t t' = i"
    with update_old_ids [OF Cons.prems(1), of t' "fst frame" "snd frame"] Cons.prems(2)
    obtain t where t: "t \<in> set (tracks s)" "id_t t = i"
      by (auto simp: s1_def)
    from update_track_step(2) [OF Cons.prems(1) t(1), of t' "fst frame" "snd frame"] t' t(2) nm
    have "t' = t\<lparr>missingFrames := missingFrames t + 1\<rparr>"
      by (simp add: s1_def)
    with Cons.prems(3) t show "box t' = bx"
      by simp
  qed
  have "\<forall>frame\<in>set frames. \<forall>d\<in>set (fst frame). \<forall>b u.
      box_2d d = Some b \<longrightarrow> calculateIoU bx b = Some u \<longrightarrow> u \<le> iouThreshold"
    using Cons.prems(4) by simp
  from Cons.IH [OF inv1 lt1 box1 this] nm show ?case
    by (simp add: s1_def)
qed

text \<open>
  Claim C2. At the end of every \<open>update\<close> call no track with \<open>missingFrames > 50\<close> is in
  the store. A track matches a detection in a call when its scan, at its turn in the
  matching loop, returns a detection (\<open>matchAt\<close>, the value of \<open>findBestMatch\<close> for the
  track when the tracks before it have taken theirs; \<open>matchedInUpdate\<close> for the track
  with a given identifier). A match sets the count of the track to 0, and a track that
  matches no detection leaves the loop with its count plus 1; the same holds of a track
  that stays in the store over the call. So a track that matches no detection in 51
  consecutive calls is absent from the store after the 51st. The states are those of a
  tracker (\<open>trackerInv\<close>: identifiers unique and below \<open>nextId\<close>), so that no new track
  takes the identifier.
\<close>

theorem eviction:
  "(\<forall>t\<in>set (tracks (fst (update s detections timestamp))). missingFrames t \<le> 50) \<and>
   (p < length (tracks s) \<longrightarrow>
      id_t (fst (matchPhase s detections) ! p) = id_t (tracks s ! p) \<and>
      missingFrames (fst (matchPhase s detections) ! p) =
        (if matchAt s detections p = None then missingFrames (tracks s ! p) + 1 else 0)) \<and>
   (trackerInv s \<and> t \<in> set (tracks s) \<and> t' \<in> set (tracks (fst (update s detections timestamp))) \<and>
      id_t t' = id_t t \<longrightarrow>
      missingFrames t' =
        (if matchedInUpdate s detections (id_t t) then 0 else missingFrames t + 1)) \<and>
   (trackerInv s \<and> t \<in> set (tracks s) \<and> length frames = 51 \<and>
      unmatchedRun s (id_t t) frames \<longrightarrow>
      id_t t \<notin> set (map id_t (tracks (updates s frames))))"
proof (intro conjI impI)
  show "\<forall>t\<in>set (tracks (fst (update s detections timestamp))). missingFrames t \<le> 50"
    using update_tracks_bounded [of s detections timestamp] by (simp add: maxMissingFrames_def)
next
  assume p: "p < length (tracks s)"
  show "id_t (fst (matchPhase s detections) ! p) = id_t (tracks s ! p)"
    using p by (rule matchPhase_nth(1))
  show "missingFrames (fst (matchPhase s detections) ! p) =
        (if matchAt s detections p = None then missingFrames (tracks s ! p) + 1 else 0)"
  proof (cases "matchAt s detections p = None")
    case True
    from matchPhase_nth(2) [OF p True] True show ?thesis
      by simp
  next
    case False
    from matchPhase_nth(3) [OF p False] False show ?thesis
      by simp
  qed
next
  assume "trackerInv s \<and> t \<in> set (tracks s) \<and>
      t' \<in> set (tracks (fst (update s detections timestamp))) \<and> id_t t' = id_t t"
  then show "missingFrames t' =
        (if matchedInUpdate s detections (id_t t) then 0 else missingFrames t + 1)"
    using update_track_step(1) [of s t t' detections timestamp] by simp
next
  assume a: "trackerInv s \<and> t \<in> set (tracks s) \<and> length frames = 51 \<and>
      unmatchedRun s (id_t t) frames"
  then have inv: "trackerInv s" and t: "t \<in> set (tracks s)" and len: "length frames = 51"
    and run: "unmatchedRun s (id_t t) frames"
    by blast+
  have lt: "id_t t < nextId s"
    using inv t by (simp add: trackerInv_def list_all_iff)
  have "\<forall>x\<in>set (tracks s). id_t x = id_t t \<longrightarrow> 0 \<le> missingFrames x"
    by simp
  from unmatchedRun_ages [OF inv lt run this]
  have old: "\<forall>x\<in>set (tracks (updates s frames)). id_t x = id_t t \<longrightarrow> 51 \<le> missingFrames x"
    by (simp only: len add_0)
  have ne: "frames \<noteq> []"
  proof
    assume "frames = []"
    with len show False
      by simp
  qed
  have young: "\<forall>x\<in>set (tracks (updates s frames)). missingFrames x \<le> 50"
    using updates_tracks_bounded [OF ne, of s] by (simp only: maxMissingFrames_def)
  show "id_t t \<notin> set (map id_t (tracks (updates s frames)))"
  proof
    assume "id_t t \<in> set (map id_t (tracks (updates s frames)))"
    then obtain x where x: "x \<in> set (tracks (updates s frames))" "id_t x = id_t t"
      by auto
    with old young have "51 \<le> missingFrames x" "missingFrames x \<le> 50"
      by blast+
    then show False
      by simp
  qed
qed

theorem eviction_witness:
  "matchAt speedState1 speedFrame2 0 = Some 0 \<and>
   missingFrames (fst (matchPhase speedState1 speedFrame2) ! 0) = 0 \<and>
   trackerInv speedState1 \<and> hd (tracks speedState1) \<in> set (tracks speedState1) \<and>
   id_t (hd (tracks speedState1)) = 1 \<and>
   hd (tracks (fst (update speedState1 speedFrame2 1))) \<in>
     set (tracks (fst (update speedState1 speedFrame2 1))) \<and>
   id_t (hd (tracks (fst (update speedState1 speedFrame2 1)))) = 1 \<and>
   matchedInUpdate speedState1 speedFrame2 1 \<and>
   missingFrames (hd (tracks (fst (update speedState1 speedFrame2 1)))) = 0 \<and>
   calculateIoU (400, 400, 500, 500) (0, 900, 100, 1000) = Some 0 \<and>
   length (replicate 51 ([car (0, 900, 100, 1000)], 0 :: int)) = 51 \<and>
   unmatchedRun speedState1 1 (replicate 51 ([car (0, 900, 100, 1000)], 0)) \<and>
   1 \<notin> set (map id_t (tracks (updates speedState1
          (replicate 51 ([car (0, 900, 100, 1000)], 0)))))"
proof -
  let ?t = "hd (tracks speedState1)"
  let ?t' = "hd (tracks (fst (update speedState1 speedFrame2 1)))"
  let ?frames = "replicate 51 ([car (0, 900, 100, 1000)], 0 :: int)"
  have inv: "trackerInv speedState1" and t: "?t \<in> set (tracks speedState1)"
    and i: "id_t ?t = 1" and p: "0 < length (tracks speedState1)"
    and bx: "\<forall>t\<in>set (tracks speedState1). id_t t = 1 \<longrightarrow> box t = (400, 400, 500, 500)"
    and nid: "1 < nextId speedState1"
    by (simp_all add: trackerInv_def speedState1_def)
  have at: "matchAt speedState1 speedFrame2 0 = Some 0"
    by (simp add: matchAt_def phase_eval speedState1_def speedFrame2_def car_def rnd_values
        cong: prod.case_cong_weak let_weak_cong)
  have t': "?t' \<in> set (tracks (fst (update speedState1 speedFrame2 1)))"
    and i': "id_t ?t' = 1"
    unfolding speed_step2 by (simp_all add: speedState2_def)
  have m: "matchedInUpdate speedState1 speedFrame2 1"
    using at by (simp add: matchedInUpdate_def speedState1_def)
  have iou: "calculateIoU (400, 400, 500, 500) (0, 900, 100, 1000) = Some 0"
    by (simp add: calculateIoU_small smallBox_def rnd_zero)
  have len: "length ?frames = 51"
    by (rule length_replicate)
  have "\<forall>frame\<in>set ?frames. \<forall>d\<in>set (fst frame). \<forall>b u. box_2d d = Some b \<longrightarrow>
      calculateIoU (400, 400, 500, 500) b = Some u \<longrightarrow> u \<le> iouThreshold"
    using iou iouThreshold_nonneg by (simp add: car_def)
  with inv nid bx have run: "unmatchedRun speedState1 1 ?frames"
    by (rule unmatchedRun_apart)
  note inst = eviction [of speedState1 speedFrame2 1 0 ?t ?t' ?frames]
  from inst p at have mf: "missingFrames (fst (matchPhase speedState1 speedFrame2) ! 0) = 0"
    by simp
  from inst inv t t' i i' m have mf': "missingFrames ?t' = 0"
    by simp
  from inst have "trackerInv speedState1 \<and> ?t \<in> set (tracks speedState1) \<and>
      length ?frames = 51 \<and> unmatchedRun speedState1 (id_t ?t) ?frames \<longrightarrow>
      id_t ?t \<notin> set (map id_t (tracks (updates speedState1 ?frames)))"
    by blast
  with inv t len run i
  have gone: "1 \<notin> set (map id_t (tracks (updates speedState1 ?frames)))"
    by (simp only: simp_thms)
  from at mf inv t i t' i' m mf' iou len run gone show ?thesis
    by (simp only: simp_thms)
qed
section \<open>Speed and lane discipline\<close>

lemma matchTrack_speed:
  assumes m: "matchTrack valid t (um, ds) = (t', um', ds')"
    and best: "findBestMatch (box t) ds valid um = Some j"
    and b: "box_2d (ds ! (valid ! j)) = Some b"
    and len: "valid ! j < length ds"
  shows "speed t' =
      of_int \<lfloor>js_mul (js_mul \<bar>js_sub (snd (getCentroid b)) (snd (centroid t))\<bar> 1000) (3 / 2)\<rfloor> \<and>
    estimatedSpeed (ds' ! (valid ! j)) = Some (speed t')"
  using m best b len by (auto simp: matchTrack_def Let_def matchUpdate_def annotate_def)

lemma laneCheck_back3: "laneCheck hist newCentroid old = laneCheckBack 3 hist newCentroid old"
proof -
  have "length hist - min (length hist) 4 = length hist - 1 - min 3 (length hist - 1)"
    by arith
  then show ?thesis
    by (simp add: laneCheck_def laneCheckBack_def entryBack_def Let_def)
qed

lemma laneCheck_not_Merging: "old \<noteq> Merging \<Longrightarrow> laneCheck hist c old \<noteq> Merging"
  by (simp add: laneCheck_def Let_def)

lemma matchUpdate_history_length:
  "history t \<noteq> [] \<Longrightarrow> 2 \<le> length (history (matchUpdate t b))"
  by (cases "history t") (simp_all add: matchUpdate_def Let_def)

lemma matchUpdate_lane:
  "laneStatus (matchUpdate t b) =
     laneCheck (history (matchUpdate t b)) (getCentroid b) (laneStatus t)"
  by (simp add: matchUpdate_def Let_def)

lemma update_annotated:
  assumes i: "i < length ds" and v: "isValid (ds ! i)"
  shows "\<exists>t\<in>set (tracks (fst (update s ds ts))).
     missingFrames t = 0 \<and> annotatedBy t (snd (update s ds ts) ! i)"
proof (rule update_phases [where s = s and ds = ds and ts = ts])
  fix matched new :: "TrackedObject list" and um :: "nat list" and ds2 :: "DetectionItem list"
  define valid where "valid = filterValid ds"
  define trks where "trks = matched @ new"
  assume "update s ds ts =
       (\<lparr>tracks = filter (\<lambda>t. missingFrames t \<le> maxMissingFrames) (matched @ new),
         nextId = nextId s + length um\<rparr>,
        flagDetections (matched @ new) (dominantFlow (matched @ new)) (filterValid ds) ds2)"
    and len2: "length ds2 = length ds"
    and "\<forall>j<length (filterValid ds). \<exists>t\<in>set (matched @ new).
        missingFrames t = 0 \<and> annotatedBy t (ds2 ! (filterValid ds ! j))"
  then have upd: "update s ds ts =
       (\<lparr>tracks = filter (\<lambda>t. missingFrames t \<le> maxMissingFrames) trks,
         nextId = nextId s + length um\<rparr>,
        flagDetections trks (dominantFlow trks) valid ds2)"
    and asg: "\<forall>j<length valid. \<exists>t\<in>set trks.
        missingFrames t = 0 \<and> annotatedBy t (ds2 ! (valid ! j))"
    by (simp_all add: valid_def trks_def)
  have iv: "i \<in> set valid"
    using i v by (simp add: valid_def filterValid_set)
  then obtain j where j: "j < length valid" "valid ! j = i"
    by (auto simp: in_set_conv_nth)
  with asg obtain t where t: "t \<in> set trks" "missingFrames t = 0" "annotatedBy t (ds2 ! i)"
    by auto
  have "\<forall>k\<in>set valid. k < length ds2"
    using len2 by (simp add: valid_def filterValid_set)
  from flagDetections_nth [OF _ this, of trks "dominantFlow trks"] i iv len2
  have "snd (update s ds ts) ! i = applyFlags trks (dominantFlow trks) (ds2 ! i)"
    by (simp add: upd valid_def filterValid_distinct)
  then have "annotatedBy t (snd (update s ds ts) ! i)"
    using t(3) by (simp add: annotatedBy_def applyFlags_def Let_def split: option.splits)
  moreover have "t \<in> set (tracks (fst (update s ds ts)))"
    using t(1,2) by (simp add: upd)
  ultimately show ?thesis
    using t(2) by blast
qed

lemma update_noMerging:
  assumes "noMerging s"
  shows "noMerging (fst (update s ds ts))"
proof (rule update_phases [where s = s and ds = ds and ts = ts])
  fix matched um ds1 new ds2
  assume m: "matchTracks (filterValid ds) (agedTracks s) ([0..<length (filterValid ds)], ds) =
      (matched, um, ds1)"
    and upd: "update s ds ts =
       (\<lparr>tracks = filter (\<lambda>t. missingFrames t \<le> maxMissingFrames) (matched @ new),
         nextId = nextId s + length um\<rparr>,
        flagDetections (matched @ new) (dominantFlow (matched @ new)) (filterValid ds) ds2)"
    and fresh: "\<forall>t\<in>set new. freshTrack t"
  have aged: "\<forall>t\<in>set (agedTracks s). laneStatus t \<noteq> Merging"
    using assms by (auto simp: noMerging_def list_all_iff agedTracks_def)
  have "\<forall>t'\<in>set matched. laneStatus t' \<noteq> Merging"
  proof
    fix t' assume "t' \<in> set matched"
    then obtain k where k: "k < length matched" "matched ! k = t'"
      by (auto simp: in_set_conv_nth)
    from matchTracks_shape [OF m] k
    have len: "k < length (agedTracks s)"
      and "t' = agedTracks s ! k \<or> (\<exists>b. t' = matchUpdate (agedTracks s ! k) b)"
      by (auto simp: list_all2_conv_all_nth)
    moreover have "laneStatus (agedTracks s ! k) \<noteq> Merging"
      using aged len by simp
    ultimately show "laneStatus t' \<noteq> Merging"
      by (auto simp: matchUpdate_lane laneCheck_not_Merging)
  qed
  moreover have "\<forall>t\<in>set new. laneStatus t \<noteq> Merging"
    using fresh by (simp add: freshTrack_def)
  ultimately show ?thesis
    by (auto simp: noMerging_def list_all_iff upd)
qed

lemma update_invalid_unchanged:
  assumes "i < length ds" and "\<not> isValid (ds ! i)"
  shows "snd (update s ds ts) ! i = ds ! i"
proof -
  have "changedWithin (set (filterValid ds)) (\<lambda>d d'. True) ds (snd (update s ds ts))"
    by (rule update_changedWithin) (simp_all add: reflp_def transp_def)
  with assms show ?thesis
    by (simp add: changedWithin_def filterValid_set)
qed

lemma matchTrack_lane:
  assumes m: "matchTrack valid t (um, ds) = (t', um', ds')"
    and best: "findBestMatch (box t) ds valid um = Some j"
    and b: "box_2d (ds ! (valid ! j)) = Some b"
    and len: "valid ! j < length ds"
  shows "t' = matchUpdate t b" and "laneEvent (ds' ! (valid ! j)) = Some (laneStatus t')"
  using m best b len by (auto simp: matchTrack_def Let_def annotate_def)

lemma matchUpdate_last: "last (history (matchUpdate t b)) = getCentroid b"
proof (cases "history t")
  case Nil
  then show ?thesis
    by (simp add: matchUpdate_def Let_def)
next
  case (Cons c cs)
  then show ?thesis
    by (simp add: matchUpdate_def Let_def)
qed

lemma noMerging_newTracker: "noMerging newTracker"
  by (simp add: noMerging_def newTracker_def)

lemma updates_noMerging: "noMerging s \<Longrightarrow> noMerging (updates s frames)"
  by (induction frames arbitrary: s) (simp_all add: update_noMerging)

lemma update_laneEvent:
  assumes nm: "noMerging s" and i: "i < length ds"
  shows "laneEvent (snd (update s ds ts) ! i) = laneEvent (ds ! i) \<or>
     laneEvent (snd (update s ds ts) ! i) = Some Stable \<or>
     laneEvent (snd (update s ds ts) ! i) = Some LaneChange"
proof (cases "isValid (ds ! i)")
  case True
  from update_annotated [OF i True, of s ts] obtain t
    where t: "t \<in> set (tracks (fst (update s ds ts)))"
      "annotatedBy t (snd (update s ds ts) ! i)"
    by blast
  from update_noMerging [OF nm, of ds ts] t(1) have "laneStatus t \<noteq> Merging"
    by (simp add: noMerging_def list_all_iff)
  with t(2) show ?thesis
    by (cases "laneStatus t") (simp_all add: annotatedBy_def)
next
  case False
  with update_invalid_unchanged [OF i False, of s ts] show ?thesis
    by simp
qed

text \<open>The binary64 difference of the centroids 0.48 and 0.45 is below 0.03, and this is
  what the product and the floor then see.\<close>

lemma shift_below_three_hundredths: "js_sub (rnd (12 / 25)) (rnd (9 / 20)) < 3 / 100"
  by (simp add: js_sub_def rnd_values)

text \<open>
  Claim C3, amended. On every successful match the speed of the track is set to
  \<open>floor (\<bar>newCentroid.y - oldCentroid.y\<bar> * 1000 * 1.5)\<close>, each operation rounded to
  binary64, and written to the matched detection as \<open>estimatedSpeed\<close>. A detection at
  \<open>[400,400,500,500]\<close> matched in the next frame at \<open>[430,400,530,500]\<close> has speed 44: the
  binary64 difference \<open>0.48 - 0.45\<close> is below 0.03, the product is below 45 and the floor
  is 44. Matched at \<open>[460,400,560,500]\<close>, a centroid shift of 0.06, it has speed 90, above
  the limit 80, and \<open>isSpeeding\<close> is set.
\<close>

theorem speed_on_match:
  "(matchTrack validDetections track (unmatched, ds) = (track', unmatched', ds') \<and>
      findBestMatch (box track) ds validDetections unmatched = Some j \<and>
      box_2d (ds ! (validDetections ! j)) = Some b \<and> validDetections ! j < length ds \<longrightarrow>
      speed track' =
        of_int \<lfloor>js_mul (js_mul \<bar>js_sub (snd (getCentroid b)) (snd (centroid track))\<bar> 1000)
                 (3 / 2)\<rfloor> \<and>
      estimatedSpeed (ds' ! (validDetections ! j)) = Some (speed track')) \<and>
   update newTracker speedFrame1 0 = (speedState1, speedOut1) \<and>
   update speedState1 speedFrame2 1 = (speedState2, speedOut2) \<and>
   map speed (tracks speedState2) = [44] \<and>
   map estimatedSpeed speedOut2 = [Some 44] \<and>
   map isSpeeding speedOut2 = [None] \<and>
   update speedState1 speedFrame2Fast 1 = (speedFastState2, speedFastOut2) \<and>
   map speed (tracks speedFastState2) = [90] \<and>
   map estimatedSpeed speedFastOut2 = [Some 90] \<and>
   SPEED_LIMIT < 90 \<and>
   map isSpeeding speedFastOut2 = [Some True]"
proof (intro conjI impI)
  assume a: "matchTrack validDetections track (unmatched, ds) = (track', unmatched', ds') \<and>
      findBestMatch (box track) ds validDetections unmatched = Some j \<and>
      box_2d (ds ! (validDetections ! j)) = Some b \<and> validDetections ! j < length ds"
  from a have m: "matchTrack validDetections track (unmatched, ds) = (track', unmatched', ds')"
    and best: "findBestMatch (box track) ds validDetections unmatched = Some j"
    and b: "box_2d (ds ! (validDetections ! j)) = Some b"
    and len: "validDetections ! j < length ds"
    by blast+
  note sp = matchTrack_speed [OF m best b len]
  show "speed track' =
        of_int \<lfloor>js_mul (js_mul \<bar>js_sub (snd (getCentroid b)) (snd (centroid track))\<bar> 1000)
                 (3 / 2)\<rfloor>"
    by (rule sp [THEN conjunct1])
  show "estimatedSpeed (ds' ! (validDetections ! j)) = Some (speed track')"
    by (rule sp [THEN conjunct2])
next
  show "update newTracker speedFrame1 0 = (speedState1, speedOut1)"
    by (rule speed_step1)
  show "update speedState1 speedFrame2 1 = (speedState2, speedOut2)"
    by (rule speed_step2)
  show "update speedState1 speedFrame2Fast 1 = (speedFastState2, speedFastOut2)"
    by (rule speedFast_step2)
  show "map speed (tracks speedState2) = [44]"
    by (simp add: speedState2_def)
  show "map estimatedSpeed speedOut2 = [Some 44]" and "map isSpeeding speedOut2 = [None]"
    by (simp_all add: speedOut2_def car_def)
  show "map speed (tracks speedFastState2) = [90]"
    by (simp add: speedFastState2_def)
  show "map estimatedSpeed speedFastOut2 = [Some 90]"
    and "map isSpeeding speedFastOut2 = [Some True]"
    by (simp_all add: speedFastOut2_def car_def)
  show "SPEED_LIMIT < 90"
    by (simp add: SPEED_LIMIT_def)
qed

text \<open>The claim as it stands gives 45 for the first example.\<close>

theorem speed_example_counterexample:
  "update newTracker speedFrame1 0 = (speedState1, speedOut1) \<and>
   map box_2d speedFrame1 = [Some (400, 400, 500, 500)] \<and>
   map box_2d speedFrame2 = [Some (430, 400, 530, 500)] \<and>
   map estimatedSpeed (snd (update speedState1 speedFrame2 1)) \<noteq> [Some 45]"
proof (intro conjI)
  show "update newTracker speedFrame1 0 = (speedState1, speedOut1)"
    by (rule speed_step1)
  show "map box_2d speedFrame1 = [Some (400, 400, 500, 500)]"
    and "map box_2d speedFrame2 = [Some (430, 400, 530, 500)]"
    by (simp_all add: speedFrame1_def speedFrame2_def car_def)
  show "map estimatedSpeed (snd (update speedState1 speedFrame2 1)) \<noteq> [Some 45]"
    unfolding speed_step2 by (simp add: speedOut2_def car_def)
qed

theorem speed_on_match_witness:
  "findBestMatch (400, 400, 500, 500) speedFrame2 [0] [0] = Some 0 \<and>
   box_2d (speedFrame2 ! 0) = Some (430, 400, 530, 500) \<and>
   speed (fst (matchTrack [0] (hd (agedTracks speedState1)) ([0], speedFrame2))) = 44 \<and>
   estimatedSpeed (snd (snd (matchTrack [0] (hd (agedTracks speedState1)) ([0], speedFrame2))) ! 0) =
     Some 44"
proof -
  let ?t = "hd (agedTracks speedState1)"
  have tb: "box ?t = (400, 400, 500, 500)" and tc: "centroid ?t = (rnd (9 / 20), rnd (9 / 20))"
    by (simp_all add: agedTracks_def speedState1_def)
  have best: "findBestMatch (400, 400, 500, 500) speedFrame2 [0] [0] = Some 0"
    by (simp add: findBestMatch_def scanDetection_def calculateIoU_small smallBox_def js_quot_def
        iouThreshold_def speedFrame2_def car_def rnd_values)
  have bx: "box_2d (speedFrame2 ! 0) = Some (430, 400, 530, 500)"
    by (simp add: speedFrame2_def car_def)
  have bx': "box_2d (speedFrame2 ! ([0] ! 0)) = Some (430, 400, 530, 500)"
    and len: "[0 :: nat] ! 0 < length speedFrame2"
    by (simp_all add: speedFrame2_def car_def)
  have m: "matchTrack [0] ?t ([0], speedFrame2) =
      (fst (matchTrack [0] ?t ([0], speedFrame2)),
       fst (snd (matchTrack [0] ?t ([0], speedFrame2))),
       snd (snd (matchTrack [0] ?t ([0], speedFrame2))))"
    by simp
  have val: "of_int \<lfloor>js_mul (js_mul
      \<bar>js_sub (snd (getCentroid (430, 400, 530, 500))) (snd (rnd (9 / 20), rnd (9 / 20)))\<bar> 1000)
      (3 / 2)\<rfloor> = (44 :: number)"
    by (simp add: getCentroid_def js_quot_def js_sub_def js_mul_def floor_numeral_divide
        rnd_values)
  have "speed (fst (matchTrack [0] ?t ([0], speedFrame2))) =
        of_int \<lfloor>js_mul (js_mul
          \<bar>js_sub (snd (getCentroid (430, 400, 530, 500))) (snd (centroid ?t))\<bar> 1000) (3 / 2)\<rfloor> \<and>
      estimatedSpeed (snd (snd (matchTrack [0] ?t ([0], speedFrame2))) ! ([0] ! 0)) =
        Some (speed (fst (matchTrack [0] ?t ([0], speedFrame2))))"
    using speed_on_match [of "[0]" ?t "[0]" speedFrame2
        "fst (matchTrack [0] ?t ([0], speedFrame2))"
        "fst (snd (matchTrack [0] ?t ([0], speedFrame2)))"
        "snd (snd (matchTrack [0] ?t ([0], speedFrame2)))" 0 "(430, 400, 530, 500)"]
      m best [folded tb] bx' len
    by blast
  then have "speed (fst (matchTrack [0] ?t ([0], speedFrame2))) = 44"
    and "estimatedSpeed (snd (snd (matchTrack [0] ?t ([0], speedFrame2))) ! 0) = Some 44"
    by (simp_all only: tc val nth_Cons_0)
  with best bx show ?thesis
    by (simp only: simp_thms)
qed

text \<open>
  Claim C7, amended. On every successful match the new centroid is appended to the history
  of the track and, once the history has at least 2 entries, \<open>laneStatus\<close> is set to
  \<open>LaneChange\<close> exactly when the absolute difference between the current centroid x and the
  x of the history entry up to 3 entries before the current one (fewer if not yet
  available) exceeds 0.03, and to \<open>Stable\<close> otherwise: \<open>history[length - min(length,4)]\<close> is
  the oldest of the last four entries, the current centroid counted. The status is written
  to the matched detection as \<open>laneEvent\<close>. \<open>Merging\<close> is never produced: no track of a
  tracker has it, and a returned \<open>laneEvent\<close> is the value the detection came with,
  \<open>Stable\<close> or \<open>LaneChange\<close>.
\<close>

theorem lane_change_classification:
  "laneCheck hist c old = laneCheckBack 3 hist c old \<and>
   (matchTrack validDetections track (unmatched, ds) = (track', unmatched', ds') \<and>
      findBestMatch (box track) ds validDetections unmatched = Some j \<and>
      box_2d (ds ! (validDetections ! j)) = Some b \<and> validDetections ! j < length ds \<longrightarrow>
      last (history track') = getCentroid b \<and>
      (history track \<noteq> [] \<longrightarrow> 2 \<le> length (history track')) \<and>
      (2 \<le> length (history track') \<longrightarrow>
         laneStatus track' =
           (if rnd (3 / 100) <
               \<bar>js_sub (fst (getCentroid b))
                  (fst (entryBack (history track') (min 3 (length (history track') - 1))))\<bar>
            then LaneChange else Stable)) \<and>
      laneEvent (ds' ! (validDetections ! j)) = Some (laneStatus track')) \<and>
   (noMerging s \<longrightarrow>
      noMerging (fst (update s detections timestamp)) \<and>
      (\<forall>i<length detections.
         laneEvent (snd (update s detections timestamp) ! i) = laneEvent (detections ! i) \<or>
         laneEvent (snd (update s detections timestamp) ! i) = Some Stable \<or>
         laneEvent (snd (update s detections timestamp) ! i) = Some LaneChange)) \<and>
   noMerging (updates newTracker frames)"
proof -
  have code_window: "laneCheck hist c old = laneCheckBack 3 hist c old"
    by (rule laneCheck_back3)
  have matched: "last (history track') = getCentroid b \<and>
      (history track \<noteq> [] \<longrightarrow> 2 \<le> length (history track')) \<and>
      (2 \<le> length (history track') \<longrightarrow>
         laneStatus track' =
           (if rnd (3 / 100) <
               \<bar>js_sub (fst (getCentroid b))
                  (fst (entryBack (history track') (min 3 (length (history track') - 1))))\<bar>
            then LaneChange else Stable)) \<and>
      laneEvent (ds' ! (validDetections ! j)) = Some (laneStatus track')"
    if m: "matchTrack validDetections track (unmatched, ds) = (track', unmatched', ds')"
      and best: "findBestMatch (box track) ds validDetections unmatched = Some j"
      and b: "box_2d (ds ! (validDetections ! j)) = Some b"
      and len: "validDetections ! j < length ds"
  proof -
    note t' = matchTrack_lane(1) [OF m best b len]
    have "laneStatus track' =
        laneCheckBack 3 (history track') (getCentroid b) (laneStatus track)"
      unfolding t' by (simp only: matchUpdate_lane laneCheck_back3)
    then have "laneStatus track' =
           (if rnd (3 / 100) <
               \<bar>js_sub (fst (getCentroid b))
                  (fst (entryBack (history track') (min 3 (length (history track') - 1))))\<bar>
            then LaneChange else Stable)"
      if "2 \<le> length (history track')"
      using that by (simp add: laneCheckBack_def)
    moreover have "last (history track') = getCentroid b"
      unfolding t' by (rule matchUpdate_last)
    moreover have "2 \<le> length (history track')" if "history track \<noteq> []"
      unfolding t' using that by (rule matchUpdate_history_length)
    moreover note matchTrack_lane(2) [OF m best b len]
    ultimately show ?thesis
      by blast
  qed
  have merging: "noMerging (fst (update s detections timestamp)) \<and>
      (\<forall>i<length detections.
         laneEvent (snd (update s detections timestamp) ! i) = laneEvent (detections ! i) \<or>
         laneEvent (snd (update s detections timestamp) ! i) = Some Stable \<or>
         laneEvent (snd (update s detections timestamp) ! i) = Some LaneChange)"
    if "noMerging s"
    using update_noMerging [OF that] update_laneEvent [OF that] by blast
  have "noMerging (updates newTracker frames)"
    by (rule updates_noMerging) (rule noMerging_newTracker)
  with code_window matched merging show ?thesis
    by blast
qed

text \<open>The entry 4 entries before the current one is not the one compared: a track first
  seen at x = 0.4 and then four times at x = 0.45 is \<open>Stable\<close> after the fifth frame, although
  the entry 4 back differs from the current x by more than 0.03.\<close>

theorem lane_four_back_counterexample:
  "updates newTracker
     [(laneFrame1, 0), (laneFrame2, 1), (laneFrame2, 2), (laneFrame2, 3), (laneFrame2, 4)] =
     laneState5 \<and>
   update laneState4 laneFrame2 4 = (laneState5, laneOut5) \<and>
   map laneStatus (tracks laneState5) = [Stable] \<and>
   map laneEvent laneOut5 = [Some Stable] \<and>
   length (history (hd (tracks laneState5))) = 5 \<and>
   fst (centroid (hd (tracks laneState5))) = rnd (9 / 20) \<and>
   fst (entryBack (history (hd (tracks laneState5))) 4) = rnd (2 / 5) \<and>
   rnd (3 / 100) < \<bar>js_sub (rnd (9 / 20)) (rnd (2 / 5))\<bar> \<and>
   laneCheckBack 4 (history (hd (tracks laneState5))) (centroid (hd (tracks laneState5)))
     (laneStatus (hd (tracks laneState4))) = LaneChange"
proof (intro conjI)
  show "updates newTracker
     [(laneFrame1, 0), (laneFrame2, 1), (laneFrame2, 2), (laneFrame2, 3), (laneFrame2, 4)] =
     laneState5"
    by (simp add: lane_step1 lane_step2 lane_step3 lane_step4 lane_step5)
  show "update laneState4 laneFrame2 4 = (laneState5, laneOut5)"
    by (rule lane_step5)
  show "map laneStatus (tracks laneState5) = [Stable]"
    by (simp add: laneState5_def)
  show "map laneEvent laneOut5 = [Some Stable]"
    by (simp add: laneOut5_def car_def)
  show "length (history (hd (tracks laneState5))) = 5"
    by (simp add: laneState5_def)
  show "fst (centroid (hd (tracks laneState5))) = rnd (9 / 20)"
    by (simp add: laneState5_def)
  show "fst (entryBack (history (hd (tracks laneState5))) 4) = rnd (2 / 5)"
    by (simp add: laneState5_def entryBack_def)
  show "rnd (3 / 100) < \<bar>js_sub (rnd (9 / 20)) (rnd (2 / 5))\<bar>"
    by (simp add: js_sub_def rnd_values)
  show "laneCheckBack 4 (history (hd (tracks laneState5))) (centroid (hd (tracks laneState5)))
     (laneStatus (hd (tracks laneState4))) = LaneChange"
    by (simp add: laneCheckBack_def entryBack_def laneState5_def laneState4_def js_sub_def
        rnd_values)
qed

theorem lane_change_classification_witness:
  "findBestMatch (400, 400, 500, 500) laneFrame2 [0] [0] = Some 0 \<and>
   box_2d (laneFrame2 ! 0) = Some (400, 400, 500, 500) \<and>
   history (hd (agedTracks laneState4)) \<noteq> [] \<and>
   length (history (fst (matchTrack [0] (hd (agedTracks laneState4)) ([0], laneFrame2)))) = 5 \<and>
   laneStatus (fst (matchTrack [0] (hd (agedTracks laneState4)) ([0], laneFrame2))) = Stable \<and>
   laneEvent (snd (snd (matchTrack [0] (hd (agedTracks laneState4)) ([0], laneFrame2))) ! 0) =
     Some Stable \<and>
   noMerging laneState4 \<and>
   noMerging (fst (update laneState4 laneFrame2 4)) \<and>
   laneEvent (snd (update laneState4 laneFrame2 4) ! 0) = Some Stable \<and>
   noMerging (updates newTracker [(laneFrame1, 0), (laneFrame2, 1)])"
proof -
  let ?t = "hd (agedTracks laneState4)"
  let ?r = "matchTrack [0] ?t ([0], laneFrame2)"
  have tb: "box ?t = (400, 400, 500, 500)"
    and th: "history ?t \<noteq> []"
    by (simp_all add: agedTracks_def laneState4_def)
  have best: "findBestMatch (400, 400, 500, 500) laneFrame2 [0] [0] = Some 0"
    by (simp add: findBestMatch_def scanDetection_def calculateIoU_small smallBox_def js_quot_def
        iouThreshold_def laneFrame2_def car_def rnd_values)
  have bx: "box_2d (laneFrame2 ! 0) = Some (400, 400, 500, 500)"
    by (simp add: laneFrame2_def car_def)
  have bx': "box_2d (laneFrame2 ! ([0] ! 0)) = Some (400, 400, 500, 500)"
    and len: "[0 :: nat] ! 0 < length laneFrame2"
    and len0: "0 < length laneFrame2"
    by (simp_all add: laneFrame2_def car_def)
  have m: "?r = (fst ?r, fst (snd ?r), snd (snd ?r))"
    by simp
  have nm: "noMerging laneState4"
    by (simp add: noMerging_def laneState4_def)
  have h: "history (fst ?r) =
      [(rnd (2 / 5), rnd (9 / 20)), (rnd (9 / 20), rnd (9 / 20)),
       (rnd (9 / 20), rnd (9 / 20)), (rnd (9 / 20), rnd (9 / 20)),
       (rnd (9 / 20), rnd (9 / 20))]"
    by (simp add: phase_eval laneState4_def laneFrame2_def car_def rnd_values
        cong: prod.case_cong_weak let_weak_cong)
  note inst = lane_change_classification [of _ _ _ "[0]" ?t "[0]" laneFrame2
      "fst ?r" "fst (snd ?r)" "snd (snd ?r)" 0 "(400, 400, 500, 500)"
      laneState4 laneFrame2 4 "[(laneFrame1, 0), (laneFrame2, 1)]"]
  from inst m best [folded tb] bx' len
  have l: "2 \<le> length (history (fst ?r)) \<longrightarrow>
         laneStatus (fst ?r) =
           (if rnd (3 / 100) <
               \<bar>js_sub (fst (getCentroid (400, 400, 500, 500)))
                  (fst (entryBack (history (fst ?r)) (min 3 (length (history (fst ?r)) - 1))))\<bar>
            then LaneChange else Stable)"
    and e: "laneEvent (snd (snd ?r) ! ([0] ! 0)) = Some (laneStatus (fst ?r))"
    by blast+
  from l have st: "laneStatus (fst ?r) = Stable"
    unfolding h
    by (simp add: entryBack_def getCentroid_def js_quot_def js_sub_def rnd_zero rnd_values)
  from inst nm have n5: "noMerging (fst (update laneState4 laneFrame2 4))"
    and ev: "\<forall>i<length laneFrame2.
         laneEvent (snd (update laneState4 laneFrame2 4) ! i) = laneEvent (laneFrame2 ! i) \<or>
         laneEvent (snd (update laneState4 laneFrame2 4) ! i) = Some Stable \<or>
         laneEvent (snd (update laneState4 laneFrame2 4) ! i) = Some LaneChange"
    and run: "noMerging (updates newTracker [(laneFrame1, 0), (laneFrame2, 1)])"
    by blast+
  have out: "laneEvent (snd (update laneState4 laneFrame2 4) ! 0) = Some Stable"
    unfolding lane_step5 by (simp add: laneOut5_def car_def)
  have len5: "length (history (fst ?r)) = 5"
    unfolding h by simp
  from e st have e': "laneEvent (snd (snd ?r) ! 0) = Some Stable"
    by simp
  from best bx th len5 st e' nm n5 out run show ?thesis
    by (simp only: simp_thms)
qed
end
